theory Spec2Isabelle
  imports Main "HOL-Library.Word" "HOL-Library.Sublist"
begin

unbundle bit_operations_syntax

section \<open>Paths and strings\<close>

text \<open>
  The script runs on macOS, where \<^verbatim>\<open>path.sep\<close> is the slash. A path is the string
  the source handles; a JavaScript string is modelled as a \<^typ>\<open>string\<close>.
\<close>

definition sep :: char where
  "sep = CHR ''/''"

text \<open>\<^verbatim>\<open>s.endsWith(t)\<close>.\<close>

definition endsWith :: "string \<Rightarrow> string \<Rightarrow> bool" where
  "endsWith s t = (length t \<le> length s \<and> drop (length s - length t) s = t)"

text \<open>
  \<^verbatim>\<open>s.split(c)\<close> for a one-character separator: the pieces between the separators, in
  order; the empty string gives one empty piece, and the result is never empty.
\<close>

fun split :: "char \<Rightarrow> string \<Rightarrow> string list" where
  "split c [] = [[]]"
| "split c (x # xs) =
     (if x = c then [] # split c xs
      else (case split c xs of
              [] \<Rightarrow> [[x]]
            | p # ps \<Rightarrow> (x # p) # ps))"

text \<open>
  \<^verbatim>\<open>path.resolve(dir, name)\<close> where \<^verbatim>\<open>dir\<close> is an absolute, normalised directory other
  than the root and \<^verbatim>\<open>name\<close> is a directory entry's name, and \<^verbatim>\<open>path.join(dir, name)\<close>
  for a normalised \<^verbatim>\<open>dir\<close> and a plain relative \<^verbatim>\<open>name\<close>: the two joined by one slash.
\<close>

definition path_resolve :: "string \<Rightarrow> string \<Rightarrow> string" where
  "path_resolve dir name = dir @ [sep] @ name"

definition path_join :: "string \<Rightarrow> string \<Rightarrow> string" where
  "path_join dir name = dir @ [sep] @ name"

section \<open>The artifact classifier\<close>

text \<open>
  \<^verbatim>\<open>isBundleExecutable(fullPath)\<close>, lines 228 to 245. \<^verbatim>\<open>parts\<close> is the reversed list of
  the path's pieces, so \<^verbatim>\<open>parts[0]\<close> is the file's own name; both index reads are
  guarded by \<^verbatim>\<open>parts.length >= 4\<close>.
\<close>

definition isBundleExecutable :: "string \<Rightarrow> bool" where
  "isBundleExecutable fullPath =
     (let parts = rev (split sep fullPath) in
      if length parts \<ge> 4 \<and>
         endsWith fullPath (parts ! 0 @ ''.app/Contents/MacOS/'' @ parts ! 0)
      then True
      else if length parts \<ge> 4 \<and>
              parts ! 3 = parts ! 0 @ ''.framework'' \<and> parts ! 2 = ''Versions''
      then True
      else False)"

text \<open>
  The two patterns as the specification words them, on the path's components: an
  application's executable is \<^verbatim>\<open><Name>.app/Contents/MacOS/<Name>\<close>, a framework's has a
  grandparent named \<^verbatim>\<open>Versions\<close> and a great-grandparent \<^verbatim>\<open><Name>.framework\<close>.
\<close>

definition spec_app_executable :: "string \<Rightarrow> bool" where
  "spec_app_executable p =
     (case rev (split sep p) of
        name # parent # grandparent # great # _ \<Rightarrow>
          parent = ''MacOS'' \<and> grandparent = ''Contents'' \<and> great = name @ ''.app''
      | _ \<Rightarrow> False)"

definition spec_framework_executable :: "string \<Rightarrow> bool" where
  "spec_framework_executable p =
     (case rev (split sep p) of
        name # parent # grandparent # great # _ \<Rightarrow>
          grandparent = ''Versions'' \<and> great = name @ ''.framework''
      | _ \<Rightarrow> False)"

definition spec_bundle_executable :: "string \<Rightarrow> bool" where
  "spec_bundle_executable p = (spec_app_executable p \<or> spec_framework_executable p)"

section \<open>The binary detector\<close>

type_synonym byte = "8 word"

text \<open>
  \<^verbatim>\<open>file.read({ buffer: Buffer.alloc(4), length: 4 })\<close>: the buffer starts as four zero
  bytes and the read overwrites its front with the bytes the file has, at most four. A
  file shorter than four bytes is no failure; the rest of the buffer stays zero.
\<close>

definition Buffer_alloc :: "nat \<Rightarrow> byte list" where
  "Buffer_alloc n = replicate n 0"

definition file_read :: "byte list \<Rightarrow> nat \<Rightarrow> byte list \<Rightarrow> byte list" where
  "file_read buffer len content =
     (let got = take (min len (length buffer)) content
      in got @ drop (length got) buffer)"

text \<open>\<^verbatim>\<open>buffer.readUInt32BE()\<close> at offset 0 of a buffer of at least four bytes.\<close>

definition readUInt32BE :: "byte list \<Rightarrow> 32 word" where
  "readUInt32BE buffer =
     ucast (buffer ! 0) * 2 ^ 24 + ucast (buffer ! 1) * 2 ^ 16 +
     ucast (buffer ! 2) * 2 ^ 8 + ucast (buffer ! 3)"

definition validHeaders :: "32 word list" where
  "validHeaders = [0xFEEDFACF, 0xCFFAEDFE]"

text \<open>
  Lines 183 to 203 of the walker: the file's content is \<open>None\<close> when opening, reading
  or closing it fails, which the \<^verbatim>\<open>catch\<close> turns into "do not sign"; otherwise the
  header decides.
\<close>

definition hasValidHeader :: "byte list option \<Rightarrow> bool" where
  "hasValidHeader content =
     (case content of
        None \<Rightarrow> False
      | Some bytes \<Rightarrow>
          (let buffer = file_read (Buffer_alloc 4) 4 bytes;
               header = readUInt32BE buffer
           in header \<in> set validHeaders))"

text \<open>The value of a byte sequence read as a big-endian number.\<close>

definition big_endian :: "byte list \<Rightarrow> nat" where
  "big_endian bs = foldl (\<lambda>acc b. acc * 256 + unat b) 0 bs"

section \<open>The bundle tree and its walker\<close>

text \<open>
  What \<^verbatim>\<open>readdir(dir, { withFileTypes: true })\<close> finds: each entry has a name and a type.
  A directory carries its own listing, \<open>None\<close> when reading it fails; a regular file
  carries what opening and reading it gives; \<open>Special\<close> stands for the sockets, pipes
  and devices, which are neither links, directories nor files.
\<close>

datatype dirent =
    Symlink
  | Directory "(string \<times> dirent) list option"
  | RegularFile "byte list option"
  | Special

datatype walk_end = Completed | ReaddirFailed string

text \<open>
  \<^verbatim>\<open>findFilesToSign(dir)\<close>, lines 155 to 223, with the loop over the entries as
  \<open>walk_entries\<close>. The generator's result is the sequence of the paths it yields and how
  it ends: a \<^verbatim>\<open>readdir\<close> that throws ends the whole walk, keeping what was yielded. The
  presence check \<^verbatim>\<open>codesign --verify --strict=all --test-requirement=anchor apple\<close> is
  the parameter \<open>isSigned\<close>: true when the tool exits with status zero. A walk checks a
  path at most once, so a function of the path also covers a check whose answer depends
  on what was signed before it. The debug output of the walker is left out.
\<close>

fun yield_first :: "string list \<Rightarrow> string list \<times> walk_end \<Rightarrow> string list \<times> walk_end" where
  "yield_first ys (zs, e) = (ys @ zs, e)"

function findFilesToSign :: "(string \<Rightarrow> bool) \<Rightarrow> string \<Rightarrow> (string \<times> dirent) list option \<Rightarrow> string list \<times> walk_end"
  and walk_entries :: "(string \<Rightarrow> bool) \<Rightarrow> string \<Rightarrow> (string \<times> dirent) list \<Rightarrow> string list \<times> walk_end"
where
  "findFilesToSign isSigned dir None = ([], ReaddirFailed dir)"
| "findFilesToSign isSigned dir (Some entries) =
     (case walk_entries isSigned dir entries of
        (ys, ReaddirFailed d) \<Rightarrow> (ys, ReaddirFailed d)
      | (ys, Completed) \<Rightarrow>
          (if endsWith dir ''.app'' \<or> endsWith dir ''.framework''
           then (if isSigned dir then (ys, Completed) else (ys @ [dir], Completed))
           else (ys, Completed)))"
| "walk_entries isSigned dir [] = ([], Completed)"
| "walk_entries isSigned dir ((name, Symlink) # rest) = walk_entries isSigned dir rest"
| "walk_entries isSigned dir ((name, Directory listing) # rest) =
     (case findFilesToSign isSigned (path_resolve dir name) listing of
        (ys, ReaddirFailed d) \<Rightarrow> (ys, ReaddirFailed d)
      | (ys, Completed) \<Rightarrow> yield_first ys (walk_entries isSigned dir rest))"
| "walk_entries isSigned dir ((name, Special) # rest) = walk_entries isSigned dir rest"
| "walk_entries isSigned dir ((name, RegularFile content) # rest) =
     (let fullPath = path_resolve dir name in
      if isBundleExecutable fullPath then walk_entries isSigned dir rest
      else if \<not> hasValidHeader content then walk_entries isSigned dir rest
      else if isSigned fullPath then walk_entries isSigned dir rest
      else yield_first [fullPath] (walk_entries isSigned dir rest))"
  by pat_completeness auto
termination
  by (relation "measure (\<lambda>x. case x of
         Inl (_, _, listing) \<Rightarrow> size_option (size_list (size_prod (\<lambda>_. 0) size)) listing
       | Inr (_, _, entries) \<Rightarrow> size_list (size_prod (\<lambda>_. 0) size) entries)") auto

text \<open>
  A bundle tree as a file system holds it: the names of one directory are distinct, none
  is empty and none contains the separator.
\<close>

definition valid_name :: "string \<Rightarrow> bool" where
  "valid_name n = (n \<noteq> [] \<and> sep \<notin> set n)"

function wf_entries :: "(string \<times> dirent) list \<Rightarrow> bool" where
  "wf_entries [] = True"
| "wf_entries ((name, e) # rest) =
     (valid_name name \<and> name \<notin> set (map fst rest) \<and>
      (case e of Directory (Some sub) \<Rightarrow> wf_entries sub | _ \<Rightarrow> True) \<and>
      wf_entries rest)"
  by pat_completeness auto
termination
  by (relation "measure (size_list (size_prod (\<lambda>_. 0) size))") auto

text \<open>
  Directory containment on paths: \<open>p\<close> lies strictly underneath \<open>ancestor\<close> when it
  continues \<open>ancestor\<close> after a separator. A sequence of paths is bottom-up when no path
  is followed by one underneath it.
\<close>

definition is_under :: "string \<Rightarrow> string \<Rightarrow> bool" where
  "is_under ancestor p = prefix (ancestor @ [sep]) p"

fun bottom_up :: "string list \<Rightarrow> bool" where
  "bottom_up [] = True"
| "bottom_up (y # ys) = ((\<forall>z \<in> set ys. \<not> is_under y z) \<and> bottom_up ys)"

text \<open>\<open>below d n y\<close>: the path \<open>y\<close> is the entry \<open>n\<close> of the directory \<open>d\<close> or lies inside it.\<close>

definition below :: "string \<Rightarrow> string \<Rightarrow> string \<Rightarrow> bool" where
  "below d n y = (\<exists>r. y = d @ sep # n @ r \<and> (r = [] \<or> hd r = sep))"

text \<open>A small bundle for the worked examples: an application with a helper and a framework.\<close>

definition macho :: "byte list option" where
  "macho = Some [0xFE, 0xED, 0xFA, 0xCF, 0x07, 0x00, 0x00, 0x01]"

definition demo_bundle :: "(string \<times> dirent) list" where
  "demo_bundle =
     [(''Contents'', Directory (Some
        [(''Info.plist'', RegularFile (Some [0x3C, 0x3F, 0x78, 0x6D, 0x6C])),
         (''MacOS'', Directory (Some
            [(''Demo'', RegularFile macho),
             (''helper'', RegularFile macho)])),
         (''Frameworks'', Directory (Some
            [(''F.framework'', Directory (Some
               [(''F'', Symlink),
                (''Versions'', Directory (Some
                   [(''A'', Directory (Some
                      [(''F'', RegularFile macho),
                       (''lib.dylib'', RegularFile macho)]))]))]))]))]))]"

section \<open>Launch constraints and their evaluation\<close>

text \<open>
  The values \<^verbatim>\<open>yaml.parse\<close> produces: null, booleans, numbers, strings, sequences and
  mappings. A mapping is the list of its properties in enumeration order. Numbers are
  only carried along, never computed with.
\<close>

datatype jsvalue =
    JNull
  | JBool bool
  | JNumber int
  | JString string
  | JArray "jsvalue list"
  | JObject "(string \<times> jsvalue) list"

text \<open>The decimal name of an index, as \<^verbatim>\<open>String(i)\<close> gives it.\<close>

definition digit :: "nat \<Rightarrow> char" where
  "digit d = ''0123456789'' ! d"

function decimal :: "nat \<Rightarrow> string" where
  "decimal n = (if n < 10 then [digit n] else decimal (n div 10) @ [digit (n mod 10)])"
  by pat_completeness auto
termination
  by (relation "measure id") auto

definition index_keys :: "nat \<Rightarrow> string list" where
  "index_keys n = map decimal [0..<n]"

text \<open>
  The own enumerable properties lodash iterates over (\<^verbatim>\<open>_.keys\<close> with the values): those
  of an object; the indices of an array; the indices of a string, each holding one
  character; none for null, a boolean or a number.
\<close>

fun ownEntries :: "jsvalue \<Rightarrow> (string \<times> jsvalue) list" where
  "ownEntries (JObject kvs) = kvs"
| "ownEntries (JArray xs) = zip (index_keys (length xs)) xs"
| "ownEntries (JString s) = zip (index_keys (length s)) (map (\<lambda>c. JString [c]) s)"
| "ownEntries JNull = []"
| "ownEntries (JBool b) = []"
| "ownEntries (JNumber n) = []"

fun is_string :: "jsvalue \<Rightarrow> bool" where
  "is_string (JString s) = True"
| "is_string v = False"

lemma ownEntries_smaller:
  "(k, v) \<in> set (ownEntries c) \<Longrightarrow> is_string v \<or> size v < size c"
proof (cases c)
  case (JArray xs)
  assume "(k, v) \<in> set (ownEntries c)"
  with JArray have "v \<in> set xs" by (auto dest: set_zip_rightD)
  then have "size v \<le> size_list size xs" by (rule size_list_estimation') simp
  with JArray show ?thesis by simp
next
  case (JObject kvs)
  assume "(k, v) \<in> set (ownEntries c)"
  with JObject have "(k, v) \<in> set kvs" by simp
  then have "size_prod (\<lambda>_. 0) size (k, v) \<le> size_list (size_prod (\<lambda>_. 0) size) kvs"
    by (rule size_list_estimation') simp
  with JObject show ?thesis by simp
qed (auto dest!: set_zip_rightD)

text \<open>
  \<^verbatim>\<open>evaluateConstraints(constraint)\<close>, lines 250 to 271: \<^verbatim>\<open>_.mapValues\<close> builds a new
  object from the own properties of its argument, whatever that is, and
  \<open>evaluate_value\<close> is the function it maps over the values. \<^verbatim>\<open>typeof null\<close> is
  \<^verbatim>\<open>'object'\<close>, so null takes the branch of the objects. \<open>AC_TEAMID\<close> is the
  environment variable, \<open>None\<close> when unset.
\<close>

function evaluateConstraints :: "string option \<Rightarrow> jsvalue \<Rightarrow> jsvalue"
  and evaluate_value :: "string option \<Rightarrow> jsvalue \<Rightarrow> jsvalue"
where
  "evaluateConstraints AC_TEAMID constraint =
     JObject (map (\<lambda>(k, v). (k, evaluate_value AC_TEAMID v)) (ownEntries constraint))"
| "evaluate_value AC_TEAMID (JString s) =
     (if s = ''${AC_TEAMID}''
      then (case AC_TEAMID of
              None \<Rightarrow> JString s
            | Some t \<Rightarrow> if t \<noteq> [] then JString t else JString s)
      else JString s)"
| "evaluate_value AC_TEAMID (JArray xs) = JArray (map (evaluateConstraints AC_TEAMID) xs)"
| "evaluate_value AC_TEAMID (JObject kvs) = evaluateConstraints AC_TEAMID (JObject kvs)"
| "evaluate_value AC_TEAMID JNull = evaluateConstraints AC_TEAMID JNull"
| "evaluate_value AC_TEAMID (JBool b) = JBool b"
| "evaluate_value AC_TEAMID (JNumber n) = JNumber n"
  by pat_completeness auto
termination
proof (relation "measure (\<lambda>x. case x of
          Inl (_, c) \<Rightarrow> 2 * size c + 2
        | Inr (_, v) \<Rightarrow> (if is_string v then 0 else 2 * size v + 3))")
  fix AC_TEAMID :: "string option" and constraint :: jsvalue and x :: "string \<times> jsvalue" and xa xb
  assume "x \<in> set (ownEntries constraint)" and "(xa, xb) = x"
  then have "(xa, xb) \<in> set (ownEntries constraint)" by simp
  from ownEntries_smaller[OF this]
  show "(Inr (AC_TEAMID, xb), Inl (AC_TEAMID, constraint)) \<in> measure (\<lambda>x. case x of
          Inl (_, c) \<Rightarrow> 2 * size c + 2
        | Inr (_, v) \<Rightarrow> (if is_string v then 0 else 2 * size v + 3))"
    by auto
next
  fix AC_TEAMID :: "string option" and xs :: "jsvalue list" and x :: jsvalue
  assume "x \<in> set xs"
  then have "size x \<le> size_list size xs" by (rule size_list_estimation') simp
  then show "(Inl (AC_TEAMID, x), Inr (AC_TEAMID, JArray xs)) \<in> measure (\<lambda>x. case x of
          Inl (_, c) \<Rightarrow> 2 * size c + 2
        | Inr (_, v) \<Rightarrow> (if is_string v then 0 else 2 * size v + 3))"
    by simp
qed simp_all

text \<open>
  The evaluator as the specification words it: the placeholder is replaced at every
  string leaf, objects and sequences are transformed recursively with the same rule,
  and every other value passes through unchanged.
\<close>

definition substitute_string :: "string option \<Rightarrow> string \<Rightarrow> string" where
  "substitute_string AC_TEAMID s =
     (if s = ''${AC_TEAMID}''
      then (case AC_TEAMID of None \<Rightarrow> s | Some t \<Rightarrow> if t \<noteq> [] then t else s)
      else s)"

function spec_evaluate :: "string option \<Rightarrow> jsvalue \<Rightarrow> jsvalue" where
  "spec_evaluate AC_TEAMID (JString s) = JString (substitute_string AC_TEAMID s)"
| "spec_evaluate AC_TEAMID (JArray xs) = JArray (map (spec_evaluate AC_TEAMID) xs)"
| "spec_evaluate AC_TEAMID (JObject kvs) =
     JObject (map (\<lambda>(k, v). (k, spec_evaluate AC_TEAMID v)) kvs)"
| "spec_evaluate AC_TEAMID JNull = JNull"
| "spec_evaluate AC_TEAMID (JBool b) = JBool b"
| "spec_evaluate AC_TEAMID (JNumber n) = JNumber n"
  by pat_completeness auto
termination
proof (relation "measure (\<lambda>(_, v). size v)")
  fix AC_TEAMID :: "string option" and xs :: "jsvalue list" and x :: jsvalue
  assume "x \<in> set xs"
  then have "size x \<le> size_list size xs" by (rule size_list_estimation') simp
  then show "((AC_TEAMID, x), AC_TEAMID, JArray xs) \<in> measure (\<lambda>(_, v). size v)"
    by simp
next
  fix AC_TEAMID :: "string option" and kvs :: "(string \<times> jsvalue) list"
    and x :: "string \<times> jsvalue" and xa xb
  assume "x \<in> set kvs" and "(xa, xb) = x"
  then have "(xa, xb) \<in> set kvs" by simp
  then have "size_prod (\<lambda>_. 0) size (xa, xb) \<le> size_list (size_prod (\<lambda>_. 0) size) kvs"
    by (rule size_list_estimation') simp
  then show "((AC_TEAMID, xb), AC_TEAMID, JObject kvs) \<in> measure (\<lambda>(_, v). size v)"
    by simp
qed simp

text \<open>
  The declarations on which the code and the specification agree: no null anywhere, and
  every element of a sequence is a mapping.
\<close>

function record_shaped :: "jsvalue \<Rightarrow> bool" where
  "record_shaped (JObject kvs) = (\<forall>(k, v) \<in> set kvs. record_shaped v)"
| "record_shaped (JArray xs) =
     (\<forall>x \<in> set xs. (case x of JObject _ \<Rightarrow> record_shaped x | _ \<Rightarrow> False))"
| "record_shaped JNull = False"
| "record_shaped (JString s) = True"
| "record_shaped (JBool b) = True"
| "record_shaped (JNumber n) = True"
  by pat_completeness auto
termination
proof (relation "measure size")
  fix kvs :: "(string \<times> jsvalue) list" and x :: "string \<times> jsvalue" and xa xb
  assume "x \<in> set kvs" and "(xa, xb) = x"
  then have "(xa, xb) \<in> set kvs" by simp
  then have "size_prod (\<lambda>_. 0) size (xa, xb) \<le> size_list (size_prod (\<lambda>_. 0) size) kvs"
    by (rule size_list_estimation') simp
  then show "(xb, JObject kvs) \<in> measure size" by simp
next
  fix xs :: "jsvalue list" and x :: jsvalue and kvs
  assume x: "x \<in> set xs"
  from x have "size x \<le> size_list size xs" by (rule size_list_estimation') simp
  then show "(x, JArray xs) \<in> measure size" by simp
qed simp

section \<open>File identities\<close>

text \<open>
  \<^verbatim>\<open>createHash('sha256').update(relPath, 'utf-8').digest('base64url')\<close>. The hash function
  itself belongs to the platform and is a parameter \<open>sha256\<close> giving the 256 bits of the
  digest; the encoding of the 32 digest bytes is written out: six bits per character of
  the URL-safe alphabet, most significant first, no padding.
\<close>

definition base64url_alphabet :: string where
  "base64url_alphabet = ''ABCDEFGHIJKLMNOPQRSTUVWXYZabcdefghijklmnopqrstuvwxyz0123456789-_''"

definition sextet :: "nat \<Rightarrow> char" where
  "sextet n = base64url_alphabet ! (n mod 64)"

fun base64url :: "byte list \<Rightarrow> string" where
  "base64url [] = []"
| "base64url [a] =
     (let n = unat a * 16 in [sextet (n div 64), sextet n])"
| "base64url [a, b] =
     (let n = (unat a * 256 + unat b) * 4 in [sextet (n div 4096), sextet (n div 64), sextet n])"
| "base64url (a # b # c # rest) =
     (let n = unat a * 65536 + unat b * 256 + unat c
      in [sextet (n div 262144), sextet (n div 4096), sextet (n div 64), sextet n]) @
     base64url rest"

definition digest_bytes :: "256 word \<Rightarrow> byte list" where
  "digest_bytes w = map (\<lambda>i. ucast (drop_bit (8 * (31 - i)) w)) [0..<32]"

definition fileHash :: "(string \<Rightarrow> 256 word) \<Rightarrow> string \<Rightarrow> string" where
  "fileHash sha256 relPath = base64url (digest_bytes (sha256 relPath))"

section \<open>The signing configuration and the run\<close>

record entitlement_override =
  paths :: "string list"
  entitlements :: "string list"

text \<open>
  A constraint record; each category is a \<^verbatim>\<open>Record<string, any>\<close> or missing
  (\<open>None\<close> for \<^verbatim>\<open>undefined\<close>).
\<close>

record launch_constraints =
  constraint_paths :: "string list"
  self :: "jsvalue option"
  parent :: "jsvalue option"
  responsible :: "jsvalue option"

record signing_config =
  entitlements_default :: "string list"
  entitlements_overrides :: "entitlement_override list"
  constraints :: "launch_constraints list"
  remove :: "string list"

text \<open>The two fields of \<^verbatim>\<open>electron-builder.yml\<close> the script reads.\<close>

record packaging_config =
  appId :: "string option"
  productName :: "string option"

text \<open>
  What a run does to the outside, in order. \<open>Plist v\<close> is the document
  \<^verbatim>\<open>plist.build(v)\<close>. \<open>ReadFile\<close> stands for reading a configuration file and
  parsing it; the arguments of \<open>Rm\<close> after the path are the options \<^verbatim>\<open>recursive\<close>
  and \<^verbatim>\<open>force\<close>; \<open>Spawn\<close> is \<^verbatim>\<open>spawnFile\<close> with the command and its arguments;
  \<open>Notarize\<close> carries the bundle identifier, the bundle's path, the Apple ID, its
  password and the team; \<open>Build\<close> the architecture, the artifact name and the
  prepackaged bundle.
\<close>

datatype plist = Plist jsvalue

datatype event =
    ConsoleLog string
  | ConsoleWarn string
  | ReadFile string
  | Rm string bool bool
  | Mkdir string
  | WriteFile string plist
  | Spawn string "string list"
  | Notarize "string option" string string string string
  | Build string string string

text \<open>
  Everything a run depends on: the environment variables and command line, the two
  parsed configuration files, the bundle as \<^verbatim>\<open>readdir\<close> finds it when the walk starts,
  which paths exist when the removal reaches them, what the presence check answers,
  which effects succeed after which history, the hash function, and what the packager
  returns.
\<close>

record world =
  CSC_FINGERPRINT :: "string option"
  APPLEID :: "string option"
  AC_PASSWORD :: "string option"
  AC_TEAMID :: "string option"
  M1 :: "string option"
  argv :: "string list"
  config :: packaging_config
  signingConfig :: signing_config
  bundle_tree :: "(string \<times> dirent) list option"
  path_exists :: "string \<Rightarrow> bool"
  alreadySigned :: "string \<Rightarrow> bool"
  succeeds :: "event list \<Rightarrow> event \<Rightarrow> bool"
  sha256 :: "string \<Rightarrow> 256 word"
  build_results :: "string list"

text \<open>
  Whether an effect succeeds after the history \<open>h\<close>. Writing to the console always
  does. \<^verbatim>\<open>fs.promises.rm(p, { recursive, force })\<close> rejects when \<open>p\<close> does not exist
  unless \<open>force\<close> is set. Everything else is up to the world.
\<close>

fun effect_ok :: "world \<Rightarrow> event list \<Rightarrow> event \<Rightarrow> bool" where
  "effect_ok w h (ConsoleLog m) = True"
| "effect_ok w h (ConsoleWarn m) = True"
| "effect_ok w h (Rm p recursive force) =
     ((force \<or> path_exists w p) \<and> succeeds w h (Rm p recursive force))"
| "effect_ok w h e = succeeds w h e"

text \<open>
  A run is a sequence of steps: one awaited effect, whose failure throws; a
  \<^verbatim>\<open>Promise.all\<close> over several effects, all started, which throws when one of them
  fails (the failure reported here is that of the first in the list); or a failure on
  the spot (a \<^verbatim>\<open>throw\<close>, or the walker's \<^verbatim>\<open>readdir\<close> throwing). Nothing in \<^verbatim>\<open>sign\<close>
  catches, so the first failure ends the run. The trace holds the effects that
  succeeded.
\<close>

datatype failure = Failed event | Thrown string | ReaddirError string

datatype step = Do event | DoAll "event list" | Fail failure

fun perform_all :: "world \<Rightarrow> event list \<Rightarrow> event list \<Rightarrow> event list \<times> event option" where
  "perform_all w [] h = (h, None)"
| "perform_all w (e # es) h =
     (if effect_ok w h e then perform_all w es (h @ [e])
      else (fst (perform_all w es h), Some e))"

fun exec :: "world \<Rightarrow> step list \<Rightarrow> event list \<Rightarrow> event list \<times> failure option" where
  "exec w [] h = (h, None)"
| "exec w (Do e # rest) h =
     (if effect_ok w h e then exec w rest (h @ [e]) else (h, Some (Failed e)))"
| "exec w (DoAll es # rest) h =
     (case perform_all w es h of
        (h', None) \<Rightarrow> exec w rest h'
      | (h', Some e) \<Rightarrow> (h', Some (Failed e)))"
| "exec w (Fail f # rest) h = (h, Some f)"

text \<open>
  \<^verbatim>\<open>path.relative(appDir, filePath)\<close> for the paths the walker yields: the bundle itself
  or a path inside it.
\<close>

definition path_relative :: "string \<Rightarrow> string \<Rightarrow> string" where
  "path_relative appDir filePath =
     (if filePath = appDir then [] else drop (Suc (length appDir)) filePath)"

text \<open>
  \<^verbatim>\<open>Object.fromEntries(entitlements.map(k => [k, true]))\<close>: one property per distinct name,
  in the order of first occurrence.
\<close>

fun assign :: "(string \<times> jsvalue) list \<Rightarrow> string \<Rightarrow> jsvalue \<Rightarrow> (string \<times> jsvalue) list" where
  "assign [] k v = [(k, v)]"
| "assign ((k', v') # rest) k v = (if k' = k then (k, v) # rest else (k', v') # assign rest k v)"

definition Object_fromEntries :: "(string \<times> jsvalue) list \<Rightarrow> jsvalue" where
  "Object_fromEntries es = JObject (foldl (\<lambda>obj (k, v). assign obj k v) [] es)"

text \<open>Lines 69 to 77: the entitlement override, the name and the entitlement set.\<close>

definition entitlementsOverride :: "signing_config \<Rightarrow> string \<Rightarrow> entitlement_override option" where
  "entitlementsOverride cfg relPath =
     find (\<lambda>e. relPath \<in> set (paths e)) (entitlements_overrides cfg)"

definition entitlementName :: "signing_config \<Rightarrow> string \<Rightarrow> string \<Rightarrow> string" where
  "entitlementName cfg relPath hash =
     (case entitlementsOverride cfg relPath of None \<Rightarrow> ''default'' | Some e \<Rightarrow> hash)"

definition resolved_entitlements :: "signing_config \<Rightarrow> string \<Rightarrow> string list" where
  "resolved_entitlements cfg relPath =
     (case entitlementsOverride cfg relPath of
        None \<Rightarrow> entitlements_default cfg
      | Some e \<Rightarrow> entitlements e)"

definition entitlementFile :: "string \<Rightarrow> string \<Rightarrow> string" where
  "entitlementFile plistsDir name = path_join plistsDir (name @ ''-entitlement.plist'')"

text \<open>
  Lines 87 to 99: the constraint record of the path, and for each category that it has
  (and that is truthy) one file to write and one flag with that file.
\<close>

definition launchConstraints :: "signing_config \<Rightarrow> string \<Rightarrow> launch_constraints option" where
  "launchConstraints cfg relPath =
     find (\<lambda>c. relPath \<in> set (constraint_paths c)) (constraints cfg)"

definition constraintTypes :: "string list" where
  "constraintTypes = [''self'', ''parent'', ''responsible'']"

definition constraint_of :: "launch_constraints option \<Rightarrow> string \<Rightarrow> jsvalue option" where
  "constraint_of lc constraintType =
     (case lc of
        None \<Rightarrow> None
      | Some c \<Rightarrow>
          if constraintType = ''self'' then self c
          else if constraintType = ''parent'' then parent c
          else if constraintType = ''responsible'' then responsible c
          else None)"

fun truthy :: "jsvalue \<Rightarrow> bool" where
  "truthy JNull = False"
| "truthy (JBool b) = b"
| "truthy (JNumber n) = (n \<noteq> 0)"
| "truthy (JString s) = (s \<noteq> [])"
| "truthy (JArray xs) = True"
| "truthy (JObject kvs) = True"

definition constraintsFile :: "string \<Rightarrow> string \<Rightarrow> string \<Rightarrow> string" where
  "constraintsFile plistsDir hash constraintType =
     path_join plistsDir (hash @ ''-constraint-'' @ constraintType @ ''.plist'')"

definition constraint_flag :: "string \<Rightarrow> string" where
  "constraint_flag constraintType = ''--launch-constraint-'' @ constraintType"

fun constraint_steps ::
  "string option \<Rightarrow> string \<Rightarrow> string \<Rightarrow> launch_constraints option \<Rightarrow> string list \<Rightarrow>
     step list \<times> string list" where
  "constraint_steps teamId plistsDir hash lc [] = ([], [])"
| "constraint_steps teamId plistsDir hash lc (constraintType # types) =
     (let (steps, args) = constraint_steps teamId plistsDir hash lc types in
      case constraint_of lc constraintType of
        None \<Rightarrow> (steps, args)
      | Some constraint \<Rightarrow>
          if truthy constraint
          then (Do (WriteFile (constraintsFile plistsDir hash constraintType)
                      (Plist (evaluateConstraints teamId constraint))) # steps,
                constraint_flag constraintType # constraintsFile plistsDir hash constraintType # args)
          else (steps, args))"

text \<open>
  The body of the loop of lines 63 to 102 for one yielded path, given whether the
  default entitlements have been written: the steps, and the flag afterwards.
\<close>

definition sign_file ::
  "world \<Rightarrow> string \<Rightarrow> string \<Rightarrow> string \<Rightarrow> bool \<Rightarrow> string \<Rightarrow> step list \<times> bool" where
  "sign_file w appDir plistsDir certFingerprint wroteDefaultEntitlements filePath =
     (let cfg = signingConfig w;
          relPath = path_relative appDir filePath;
          hash = fileHash (sha256 w) relPath;
          args = [''--sign'', certFingerprint, ''--force'', ''--timestamp'', ''--options'', ''runtime''];
          name = entitlementName cfg relPath hash;
          file = entitlementFile plistsDir name;
          write = (\<not> wroteDefaultEntitlements \<or> name \<noteq> ''default'');
          (csteps, cargs) =
            constraint_steps (AC_TEAMID w) plistsDir hash (launchConstraints cfg relPath) constraintTypes
      in ((if write
           then [Do (WriteFile file
                   (Plist (Object_fromEntries
                      (map (\<lambda>k. (k, JBool True)) (resolved_entitlements cfg relPath)))))]
           else []) @
          csteps @
          [Do (Spawn ''codesign'' (args @ [''--entitlements'', file] @ cargs @ [filePath]))],
          (if write then wroteDefaultEntitlements \<or> name = ''default''
           else wroteDefaultEntitlements)))"

fun sign_files ::
  "world \<Rightarrow> string \<Rightarrow> string \<Rightarrow> string \<Rightarrow> bool \<Rightarrow> string list \<Rightarrow> step list" where
  "sign_files w appDir plistsDir certFingerprint wrote [] = []"
| "sign_files w appDir plistsDir certFingerprint wrote (filePath # rest) =
     (let (steps, wrote') = sign_file w appDir plistsDir certFingerprint wrote filePath
      in steps @ sign_files w appDir plistsDir certFingerprint wrote' rest)"

text \<open>
  Truthiness of an environment variable: set and not empty; and its value, where
  \<^verbatim>\<open>?? ''\<close> or a truthiness test has excluded \<^verbatim>\<open>undefined\<close>.
\<close>

definition given :: "string option \<Rightarrow> bool" where
  "given v = (case v of None \<Rightarrow> False | Some s \<Rightarrow> s \<noteq> [])"

definition env_value :: "string option \<Rightarrow> string" where
  "env_value v = (case v of None \<Rightarrow> [] | Some s \<Rightarrow> s)"

definition app_dir :: "string \<Rightarrow> string" where
  "app_dir workDir = path_join (path_join workDir ''unpacked'') ''Rancher Desktop.app''"

definition plists_dir :: "string \<Rightarrow> string" where
  "plists_dir workDir = path_join workDir ''plists''"

definition certificate :: "world \<Rightarrow> string" where
  "certificate w = env_value (CSC_FINGERPRINT w)"

text \<open>
  Lines 44 to 106: reading the two configuration files, the removals, the signing loop
  over what the walker yields, and the verification of the result.
\<close>

definition signing_steps :: "world \<Rightarrow> string \<Rightarrow> step list" where
  "signing_steps w workDir =
     (let appDir = app_dir workDir;
          configPath = path_join appDir ''Contents/electron-builder.yml'';
          signingConfigPath = path_join appDir ''Contents/build/signing-config-mac.yaml'';
          plistsDir = plists_dir workDir;
          (yielded, walk) = findFilesToSign (alreadySigned w) appDir (bundle_tree w)
      in [Do (ReadFile configPath),
          Do (ReadFile signingConfigPath),
          Do (ConsoleLog ''Removing excess files...''),
          DoAll (map (\<lambda>relpath. Rm (path_join appDir relpath) True False)
                   (remove (signingConfig w))),
          Do (ConsoleLog ''Signing application...''),
          Do (Mkdir plistsDir)] @
         sign_files w appDir plistsDir (certificate w) False yielded @
         (case walk of Completed \<Rightarrow> [] | ReaddirFailed d \<Rightarrow> [Fail (ReaddirError d)]) @
         [Do (ConsoleLog ''Verifying application signature...''),
          Do (Spawn ''codesign'' [''--verify'', ''--deep'', ''--strict'', ''--verbose=2'', appDir]),
          Do (Spawn ''codesign'' [''--display'', ''--entitlements'', ''-'', appDir])])"

text \<open>Lines 108 to 126: the decision about notarization.\<close>

definition cannot_notarize :: string where
  "cannot_notarize =
     ''APPLEID, AC_PASSWORD, or AC_TEAMID environment variables not given, cannot notarize.'' @
     [CHR 0x0A] @
     ''To force skip notarization, please pass --skip-notarize to signing script.''"

definition notarize_steps :: "world \<Rightarrow> string \<Rightarrow> step list" where
  "notarize_steps w workDir =
     (if ''--skip-notarize'' \<in> set (argv w)
      then [Do (ConsoleWarn ''Skipping notarization: --skip-notarize given.'')]
      else if given (APPLEID w) \<and> given (AC_PASSWORD w) \<and> given (AC_TEAMID w)
      then [Do (ConsoleLog ''Notarizing application...''),
            Do (Notarize (appId (config w)) (app_dir workDir)
                  (env_value (APPLEID w)) (env_value (AC_PASSWORD w)) (env_value (AC_TEAMID w)))]
      else [Fail (Thrown cannot_notarize)])"

text \<open>
  Lines 128 to 149: the disk image. \<^verbatim>\<open>productName.replace(/\s+/g, '.')\<close> turns every run
  of white space into one dot.
\<close>

definition is_space :: "char \<Rightarrow> bool" where
  "is_space c = (c \<in> set [CHR 0x20, CHR 0x09, CHR 0x0A, CHR 0x0B, CHR 0x0C, CHR 0x0D])"

function replace_spaces :: "string \<Rightarrow> string" where
  "replace_spaces [] = []"
| "replace_spaces (c # cs) =
     (if is_space c then CHR ''.'' # replace_spaces (dropWhile is_space cs)
      else c # replace_spaces cs)"
  by pat_completeness auto
termination
  by (relation "measure length") (auto simp: length_dropWhile_le le_imp_less_Suc)

definition dmg_file :: "world \<Rightarrow> string option" where
  "dmg_file w = find (\<lambda>v. endsWith v ''.dmg'') (build_results w)"

definition package_steps :: "world \<Rightarrow> string \<Rightarrow> step list" where
  "package_steps w workDir =
     (let arch = (if given (M1 w) then ''arm64'' else ''x64'');
          productFileName =
            (case productName (config w) of
               None \<Rightarrow> ''undefined''
             | Some n \<Rightarrow> replace_spaces n);
          productArch = (if given (M1 w) then ''aarch64'' else ''x86_64'');
          artifactName = productFileName @ ''-${version}.'' @ productArch @ ''.${ext}''
      in [Do (ConsoleLog ''Building disk image...''),
          Do (Build arch artifactName (app_dir workDir))] @
         (case dmg_file w of
            None \<Rightarrow> [Fail (Thrown ''Could not find signed disk image'')]
          | Some dmgFile \<Rightarrow>
              [Do (Spawn ''codesign'' [''--sign'', certificate w, ''--timestamp'', dmgFile])]))"

text \<open>
  \<^verbatim>\<open>sign(workDir)\<close>, lines 34 to 150: the trace of the effects that succeeded, and the
  failure that ended the run or the path of the disk image it returns.
\<close>

definition sign_plan :: "world \<Rightarrow> string \<Rightarrow> step list" where
  "sign_plan w workDir =
     (if length (certificate w) < 1
      then [Fail (Thrown
         ''CSC_FINGERPRINT environment variable not set; required to pick signing certificate.'')]
      else signing_steps w workDir @ notarize_steps w workDir @ package_steps w workDir)"

definition sign :: "world \<Rightarrow> string \<Rightarrow> event list \<times> (failure + string)" where
  "sign w workDir =
     (case exec w (sign_plan w workDir) [] of
        (trace, Some f) \<Rightarrow> (trace, Inl f)
      | (trace, None) \<Rightarrow>
          (trace, Inr (case dmg_file w of None \<Rightarrow> [] | Some dmgFile \<Rightarrow> dmgFile)))"

text \<open>The effects a sequence of steps asks for, and counting the writes of one file.\<close>

fun planned :: "step list \<Rightarrow> event list" where
  "planned [] = []"
| "planned (Do e # rest) = e # planned rest"
| "planned (DoAll es # rest) = es @ planned rest"
| "planned (Fail f # rest) = planned rest"

fun is_write_to :: "string \<Rightarrow> event \<Rightarrow> bool" where
  "is_write_to f (WriteFile p c) = (p = f)"
| "is_write_to f e = False"

definition writes_to :: "string \<Rightarrow> event list \<Rightarrow> nat" where
  "writes_to f trace = length (filter (is_write_to f) trace)"

fun is_codesign :: "event \<Rightarrow> bool" where
  "is_codesign (Spawn command args) = (command = ''codesign'')"
| "is_codesign e = False"

fun is_notarize :: "event \<Rightarrow> bool" where
  "is_notarize (Notarize a b c d e) = True"
| "is_notarize e = False"

text \<open>A world for the worked examples: everything succeeds, the helper has an override
  and launch constraints, and notarization is skipped.\<close>

definition demo_config :: signing_config where
  "demo_config = \<lparr>
     entitlements_default = [''com.apple.security.bar''],
     entitlements_overrides =
       [\<lparr>paths = [''Contents/MacOS/helper''], entitlements = [''com.apple.security.foo'']\<rparr>],
     constraints =
       [\<lparr>constraint_paths = [''Contents/MacOS/helper''],
         self = Some (JObject [(''team-identifier'', JString ''${AC_TEAMID}'')]),
         parent = None,
         responsible = None\<rparr>],
     remove = [''Contents/Resources/unused.txt'']\<rparr>"

definition demo_world :: world where
  "demo_world = \<lparr>
     CSC_FINGERPRINT = Some ''ABCDEF'',
     APPLEID = None,
     AC_PASSWORD = None,
     AC_TEAMID = Some ''TEAM'',
     M1 = None,
     argv = [''node'', ''sign.js'', ''--skip-notarize''],
     config = \<lparr>appId = Some ''io.demo'', productName = Some ''Demo App''\<rparr>,
     signingConfig = demo_config,
     bundle_tree = Some demo_bundle,
     path_exists = (\<lambda>p. True),
     alreadySigned = (\<lambda>p. False),
     succeeds = (\<lambda>h e. True),
     sha256 = (\<lambda>p. of_nat (length p)),
     build_results = [''dist/Demo.App-1.0.x86_64.dmg'']\<rparr>"

text \<open>
  Notions the properties of a run are stated with: a category is present for a path when
  its constraint record has a truthy value for it; the file of the default entitlements;
  a path that no override lists; and a run whose signing phase (everything up to the
  verification of the bundle) goes through.
\<close>

definition present :: "launch_constraints option \<Rightarrow> string \<Rightarrow> bool" where
  "present lc t = (case constraint_of lc t of None \<Rightarrow> False | Some c \<Rightarrow> truthy c)"



definition signing_completes :: "world \<Rightarrow> string \<Rightarrow> bool" where
  "signing_completes w workDir =
     (certificate w \<noteq> [] \<and> snd (exec w (signing_steps w workDir) []) = None)"

text \<open>How often \<open>a\<close> is directly followed by \<open>b\<close> in a list.\<close>

fun pair_count :: "'a \<Rightarrow> 'a \<Rightarrow> 'a list \<Rightarrow> nat" where
  "pair_count a b (x # y # rest) = (if x = a \<and> y = b then 1 else 0) + pair_count a b (y # rest)"
| "pair_count a b [x] = 0"
| "pair_count a b [] = 0"

text \<open>The argument lists of the \<^verbatim>\<open>codesign\<close> invocations among some steps.\<close>

fun invocations :: "step list \<Rightarrow> string list list" where
  "invocations [] = []"
| "invocations (Do (Spawn command args) # rest) =
     (if command = ''codesign'' then args # invocations rest else invocations rest)"
| "invocations (s # rest) = invocations rest"

text \<open>The steps of a run up to and including the removals.\<close>

definition removal_steps :: "world \<Rightarrow> string \<Rightarrow> step list" where
  "removal_steps w workDir =
     [Do (ReadFile (path_join (app_dir workDir) ''Contents/electron-builder.yml'')),
      Do (ReadFile (path_join (app_dir workDir) ''Contents/build/signing-config-mac.yaml'')),
      Do (ConsoleLog ''Removing excess files...''),
      DoAll (map (\<lambda>relpath. Rm (path_join (app_dir workDir) relpath) True False)
               (remove (signingConfig w)))]"


section \<open>Properties of the binary detector\<close>

lemma unat_byte_less: "unat (x :: byte) < 256"
  using unsigned_less[of x, where 'a = nat] by simp

lemma unat_ucast_byte: "unat (ucast (x :: byte) :: 32 word) = unat x"
proof -
  have "unat x < 2 ^ 32"
    using unat_byte_less[of x] by simp
  then show ?thesis
    by (simp add: unsigned_ucast_eq take_bit_nat_eq_self)
qed

lemma readUInt32BE_unat:
  "unat (readUInt32BE [a, b, c, d]) = unat a * 16777216 + unat b * 65536 + unat c * 256 + unat d"
proof -
  have a: "unat a < 256" by (rule unat_byte_less)
  have b: "unat b < 256" by (rule unat_byte_less)
  have c: "unat c < 256" by (rule unat_byte_less)
  have d: "unat d < 256" by (rule unat_byte_less)
  have "unat (readUInt32BE [a, b, c, d]) =
      (unat a * 16777216 + unat b * 65536 + unat c * 256 + unat d) mod 4294967296"
    by (simp add: readUInt32BE_def unat_word_ariths unat_ucast_byte mod_simps)
  also have "\<dots> = unat a * 16777216 + unat b * 65536 + unat c * 256 + unat d"
    using a b c d by simp
  finally show ?thesis .
qed

lemma big_endian4:
  "big_endian [a, b, c, d] = unat a * 16777216 + unat b * 65536 + unat c * 256 + unat d"
  by (simp add: big_endian_def)

lemma file_read_long:
  "4 \<le> length bs \<Longrightarrow> file_read (Buffer_alloc 4) 4 bs = take 4 bs"
  by (simp add: file_read_def Buffer_alloc_def Let_def)

lemma file_read_short:
  "length bs < 4 \<Longrightarrow> file_read (Buffer_alloc 4) 4 bs = bs @ replicate (4 - length bs) 0"
  by (simp add: file_read_def Buffer_alloc_def Let_def)

lemma take4: "4 \<le> length bs \<Longrightarrow> take 4 bs = [bs ! 0, bs ! 1, bs ! 2, bs ! 3]"
  by (cases bs; cases "tl bs"; cases "tl (tl bs)"; cases "tl (tl (tl bs))") auto

lemma hasValidHeader_long:
  assumes "4 \<le> length bs"
  shows "hasValidHeader (Some bs) \<longleftrightarrow> big_endian (take 4 bs) \<in> {0xFEEDFACF, 0xCFFAEDFE}"
proof -
  let ?h = "readUInt32BE [bs ! 0, bs ! 1, bs ! 2, bs ! 3]"
  have "hasValidHeader (Some bs) \<longleftrightarrow> ?h = 0xFEEDFACF \<or> ?h = 0xCFFAEDFE"
    using assms by (simp add: hasValidHeader_def file_read_long take4 validHeaders_def Let_def)
  also have "\<dots> \<longleftrightarrow> unat ?h = 0xFEEDFACF \<or> unat ?h = 0xCFFAEDFE"
    by (simp add: word_unat_eq_iff)
  finally show ?thesis
    using assms by (simp add: take4 big_endian4 readUInt32BE_unat)
qed

lemma hasValidHeader_short:
  assumes "length bs < 4"
  shows "\<not> hasValidHeader (Some bs)"
proof -
  obtain a b c where buf: "file_read (Buffer_alloc 4) 4 bs = [a, b, c, 0]"
    using assms
    by (cases bs; cases "tl bs"; cases "tl (tl bs)"; cases "tl (tl (tl bs))")
       (auto simp: file_read_def Buffer_alloc_def Let_def numeral_eq_Suc)
  have "unat (readUInt32BE [a, b, c, 0]) mod 256 = 0"
    by (simp add: readUInt32BE_unat)
  then have "readUInt32BE [a, b, c, 0] \<noteq> 0xFEEDFACF" "readUInt32BE [a, b, c, 0] \<noteq> 0xCFFAEDFE"
    by (auto simp: word_unat_eq_iff)
  then show ?thesis
    by (simp add: hasValidHeader_def buf validHeaders_def Let_def)
qed

text \<open>
  Claim C6. The detector reads the first four bytes as a big-endian 32-bit number and
  accepts the file exactly when that number is 0xFEEDFACF or 0xCFFAEDFE. A file of fewer
  than four bytes leaves the zero-filled buffer's last byte at zero and is never
  accepted. The file FE ED FA CF is accepted, the file 00 00 00 00 is not. A file that
  cannot be opened or read is not accepted, and the walk goes on with the next entry.
\<close>

theorem binary_detector_magic:
  "(hasValidHeader (Some bs) \<longleftrightarrow>
      4 \<le> length bs \<and> big_endian (take 4 bs) \<in> {0xFEEDFACF, 0xCFFAEDFE}) \<and>
   hasValidHeader (Some [0xFE, 0xED, 0xFA, 0xCF]) \<and>
   \<not> hasValidHeader (Some [0x00, 0x00, 0x00, 0x00]) \<and>
   \<not> hasValidHeader None \<and>
   walk_entries isSigned dir ((name, RegularFile None) # rest) = walk_entries isSigned dir rest"
proof -
  have "hasValidHeader (Some bs) \<longleftrightarrow>
      4 \<le> length bs \<and> big_endian (take 4 bs) \<in> {0xFEEDFACF, 0xCFFAEDFE}"
  proof (cases "4 \<le> length bs")
    case True
    then show ?thesis using hasValidHeader_long[OF True] by simp
  next
    case False
    then show ?thesis using hasValidHeader_short[of bs] by simp
  qed
  moreover have "hasValidHeader (Some [0xFE, 0xED, 0xFA, 0xCF])"
    by (simp add: hasValidHeader_long big_endian4)
  moreover have "\<not> hasValidHeader (Some [0x00, 0x00, 0x00, 0x00])"
    by (simp add: hasValidHeader_long big_endian4)
  moreover have "\<not> hasValidHeader None"
    by (simp add: hasValidHeader_def)
  moreover have "walk_entries isSigned dir ((name, RegularFile None) # rest) =
      walk_entries isSigned dir rest"
    by (simp add: hasValidHeader_def Let_def)
  ultimately show ?thesis by blast
qed

section \<open>Properties of the walker\<close>

lemma bottom_up_append:
  "bottom_up (xs @ ys) =
     (bottom_up xs \<and> bottom_up ys \<and> (\<forall>x \<in> set xs. \<forall>y \<in> set ys. \<not> is_under x y))"
  by (induction xs) auto

lemma takeWhile_name:
  assumes "sep \<notin> set n" and "r = [] \<or> hd r = sep"
  shows "takeWhile (\<lambda>c. c \<noteq> sep) (n @ r) = n"
proof -
  have "takeWhile (\<lambda>c. c \<noteq> sep) r = []"
    using assms(2) by (cases r) auto
  with assms(1) show ?thesis
    by (induction n) auto
qed

lemma below_not_under:
  assumes a: "below d n a" and b: "below d n' b" and ne: "n \<noteq> n'"
    and n: "sep \<notin> set n" and n': "sep \<notin> set n'"
  shows "\<not> is_under a b"
proof
  assume "is_under a b"
  then obtain t where t: "b = a @ sep # t"
    by (auto simp: is_under_def prefix_def)
  from a obtain r where r: "a = d @ sep # n @ r" "r = [] \<or> hd r = sep"
    by (auto simp: below_def)
  from b obtain r' where r': "b = d @ sep # n' @ r'" "r' = [] \<or> hd r' = sep"
    by (auto simp: below_def)
  from t r r' have eq: "n' @ r' = n @ (r @ sep # t)" by simp
  have "r @ sep # t = [] \<or> hd (r @ sep # t) = sep"
    using r(2) by (cases r) auto
  then have "takeWhile (\<lambda>c. c \<noteq> sep) (n @ (r @ sep # t)) = n"
    using n by (rule takeWhile_name[rotated])
  moreover have "takeWhile (\<lambda>c. c \<noteq> sep) (n' @ r') = n'"
    using n' r'(2) by (rule takeWhile_name)
  ultimately show False using eq ne by simp
qed

lemma below_longer: "below d n a \<Longrightarrow> \<not> is_under a d"
  by (auto simp: below_def is_under_def prefix_def)

lemma below_resolve: "below d n (path_resolve d n)"
  by (simp add: below_def path_resolve_def)

lemma below_nested: "below (path_resolve d n) m y \<Longrightarrow> below d n y"
  by (auto simp: below_def path_resolve_def)

lemma fst_yield_first [simp]: "fst (yield_first ys r) = ys @ fst r"
  by (cases r) simp

lemma snd_yield_first [simp]: "snd (yield_first ys r) = snd r"
  by (cases r) simp

lemma yields_below:
  "(\<forall>y \<in> set (fst (findFilesToSign V d l)).
      y = d \<or> (\<exists>es. l = Some es \<and> (\<exists>n \<in> set (map fst es). below d n y)))"
  "(\<forall>y \<in> set (fst (walk_entries V d es)). \<exists>n \<in> set (map fst es). below d n y)"
proof (induction V d l and V d es rule: findFilesToSign_walk_entries.induct)
  case (1 V d)
  then show ?case by simp
next
  case (2 V d es)
  obtain ys e where w: "walk_entries V d es = (ys, e)"
    by (cases "walk_entries V d es")
  have "\<exists>n \<in> set (map fst es). below d n y" if "y \<in> set ys" for y
    using "2.IH" w that by simp
  then show ?case
    using w by (cases e) auto
next
  case (3 V d)
  then show ?case by simp
next
  case (4 V d name rest)
  then show ?case by auto
next
  case (5 V d name listing rest)
  then show ?case
  proof -
    obtain ys e where sub: "findFilesToSign V (path_resolve d name) listing = (ys, e)"
      by (cases "findFilesToSign V (path_resolve d name) listing")
    have first: "below d name y" if "y \<in> set ys" for y
      using "5.IH"(1) sub that by (auto intro: below_resolve below_nested)
    show ?thesis
    proof (cases e)
      case Completed
      obtain zs e' where rest: "walk_entries V d rest = (zs, e')"
        by (cases "walk_entries V d rest")
      have "\<exists>n \<in> set (map fst rest). below d n z" if "z \<in> set zs" for z
        using "5.IH"(2)[OF sub[symmetric] Completed] rest that by auto
      with first show ?thesis
        using sub Completed rest by auto
    next
      case (ReaddirFailed p)
      with first show ?thesis
        using sub by auto
    qed
  qed
next
  case (6 V d name rest)
  then show ?case by auto
next
  case (7 V d name content rest)
  have "\<exists>n \<in> set (map fst ((name, RegularFile content) # rest)). below d n y"
    if "y \<in> set (fst (walk_entries V d rest))" for y
    using "7.IH" that by (auto simp: Let_def)
  moreover have "\<exists>n \<in> set (map fst ((name, RegularFile content) # rest)).
      below d n (path_resolve d name)"
    using below_resolve by simp
  ultimately show ?case by (simp add: Let_def)
qed

lemma yields_entries:
  "y \<in> set (fst (walk_entries V d es)) \<Longrightarrow> \<exists>n. n \<in> fst ` set es \<and> below d n y"
  using yields_below(2)[of V d es] by force

lemma yields_dir:
  "y \<in> set (fst (findFilesToSign V d l)) \<Longrightarrow> y = d \<or> (\<exists>n. below d n y)"
  using yields_below(1)[of V d l] by force

lemma wf_entries_names:
  "wf_entries es \<Longrightarrow> n \<in> fst ` set es \<Longrightarrow> sep \<notin> set n"
proof (induction es)
  case Nil
  then show ?case by simp
next
  case (Cons a es)
  obtain name e where a: "a = (name, e)" by (cases a)
  from Cons.prems(1) a have "sep \<notin> set name" "wf_entries es"
    by (simp_all add: valid_name_def)
  with Cons.IH Cons.prems(2) a show ?case by auto
qed

lemma walk_bottom_up:
  "(case l of None \<Rightarrow> True | Some es \<Rightarrow> wf_entries es) \<Longrightarrow>
     bottom_up (fst (findFilesToSign V d l))"
  "wf_entries es \<Longrightarrow> bottom_up (fst (walk_entries V d es))"
proof (induction V d l and V d es rule: findFilesToSign_walk_entries.induct)
  case (1 V d)
  then show ?case by simp
next
  case (2 V d es)
  obtain ys e where w: "walk_entries V d es = (ys, e)"
    by (cases "walk_entries V d es")
  have ys: "bottom_up ys"
    using "2.IH" "2.prems" w by simp
  have "\<not> is_under y d" if "y \<in> set ys" for y
    using yields_entries[of y V d es] w that by (auto dest: below_longer)
  with ys have "bottom_up (ys @ [d])"
    by (simp add: bottom_up_append)
  with ys w show ?case
    by (cases e) simp_all
next
  case (3 V d)
  then show ?case by simp
next
  case (4 V d name rest)
  then show ?case by simp
next
  case (5 V d name listing rest)
  obtain ys e where sub: "findFilesToSign V (path_resolve d name) listing = (ys, e)"
    by (cases "findFilesToSign V (path_resolve d name) listing")
  from "5.prems" have wf: "sep \<notin> set name" "name \<notin> fst ` set rest"
    "case listing of None \<Rightarrow> True | Some es \<Rightarrow> wf_entries es" "wf_entries rest"
    by (auto simp: valid_name_def split: option.splits)
  have first: "below d name y" if "y \<in> set ys" for y
    using yields_dir[of y V "path_resolve d name" listing] sub that
    by (auto intro: below_resolve below_nested)
  have ys: "bottom_up ys"
    using "5.IH"(1)[OF wf(3)] sub by simp
  show ?case
  proof (cases e)
    case Completed
    obtain zs e' where rest: "walk_entries V d rest = (zs, e')"
      by (cases "walk_entries V d rest")
    have zs: "bottom_up zs"
      using "5.IH"(2)[OF sub[symmetric] Completed wf(4)] rest by simp
    have cross: "\<not> is_under y z" if "y \<in> set ys" and "z \<in> set zs" for y z
    proof -
      from that(2) obtain n where n: "n \<in> fst ` set rest" "below d n z"
        using yields_entries[of z V d rest] rest by auto
      from n(1) wf(2) have "name \<noteq> n" by blast
      then show ?thesis
        using below_not_under[OF first[OF that(1)] n(2)] wf(1) wf_entries_names[OF wf(4) n(1)]
        by blast
    qed
    show ?thesis
      using sub Completed rest ys zs cross by (simp add: bottom_up_append)
  next
    case (ReaddirFailed p)
    then show ?thesis using sub ys by simp
  qed
next
  case (6 V d name rest)
  then show ?case by simp
next
  case (7 V d name content rest)
  from "7.prems" have wf: "sep \<notin> set name" "name \<notin> fst ` set rest" "wf_entries rest"
    by (auto simp: valid_name_def)
  have rest: "bottom_up (fst (walk_entries V d rest))"
    using "7.IH" wf(3) by (auto simp: Let_def)
  have "\<not> is_under (path_resolve d name) z" if "z \<in> set (fst (walk_entries V d rest))" for z
  proof -
    from that obtain n where n: "n \<in> fst ` set rest" "below d n z"
      using yields_entries[of z V d rest] by auto
    from n(1) wf(2) have "name \<noteq> n" by blast
    then show ?thesis
      using below_not_under[OF below_resolve n(2)] wf(1) wf_entries_names[OF wf(3) n(1)]
      by blast
  qed
  with rest show ?case by (simp add: Let_def)
qed

lemma presence_check_filters:
  "findFilesToSign V d l =
     (filter (\<lambda>p. \<not> V p) (fst (findFilesToSign (\<lambda>_. False) d l)),
      snd (findFilesToSign (\<lambda>_. False) d l))"
  "walk_entries V d es =
     (filter (\<lambda>p. \<not> V p) (fst (walk_entries (\<lambda>_. False) d es)),
      snd (walk_entries (\<lambda>_. False) d es))"
proof (induction V d l and V d es rule: findFilesToSign_walk_entries.induct)
  case (1 V d)
  then show ?case by simp
next
  case (2 V d es)
  obtain ys e where w: "walk_entries (\<lambda>_. False) d es = (ys, e)"
    by (cases "walk_entries (\<lambda>_. False) d es")
  with "2.IH" show ?case
    by (cases e) simp_all
next
  case (3 V d)
  then show ?case by simp
next
  case (4 V d name rest)
  then show ?case by simp
next
  case (5 V d name listing rest)
  obtain ys e where sub: "findFilesToSign (\<lambda>_. False) (path_resolve d name) listing = (ys, e)"
    by (cases "findFilesToSign (\<lambda>_. False) (path_resolve d name) listing")
  then have sub': "findFilesToSign V (path_resolve d name) listing = (filter (\<lambda>p. \<not> V p) ys, e)"
    using "5.IH"(1) by simp
  show ?case
  proof (cases e)
    case Completed
    obtain zs e' where rest: "walk_entries (\<lambda>_. False) d rest = (zs, e')"
      by (cases "walk_entries (\<lambda>_. False) d rest")
    have "walk_entries V d rest = (filter (\<lambda>p. \<not> V p) zs, e')"
      using "5.IH"(2)[OF sub'[symmetric] Completed] rest by simp
    with sub sub' Completed rest show ?thesis by simp
  next
    case (ReaddirFailed p)
    with sub sub' show ?thesis by simp
  qed
next
  case (6 V d name rest)
  then show ?case by simp
next
  case (7 V d name content rest)
  obtain zs e' where rest: "walk_entries (\<lambda>_. False) d rest = (zs, e')"
    by (cases "walk_entries (\<lambda>_. False) d rest")
  have "walk_entries V d rest = (filter (\<lambda>p. \<not> V p) zs, e')"
    using "7.IH" rest by (auto simp: Let_def)
  with rest show ?case by (simp add: Let_def)
qed

lemma bottom_up_before:
  assumes "bottom_up ys" and "i < length ys" and "q \<in> set ys" and "is_under (ys ! i) q"
  shows "q \<in> set (take i ys)"
proof -
  have split: "ys = take i ys @ ys ! i # drop (Suc i) ys"
    using assms(2) by (simp add: id_take_nth_drop)
  have "bottom_up (take i ys @ ys ! i # drop (Suc i) ys)"
    using assms(1) split by simp
  then have later: "\<forall>z \<in> set (drop (Suc i) ys). \<not> is_under (ys ! i) z"
    by (simp add: bottom_up_append)
  have "\<not> is_under (ys ! i) (ys ! i)"
    by (simp add: is_under_def prefix_def)
  with assms(4) have "q \<noteq> ys ! i" by auto
  moreover from assms(3) split
  have "q \<in> set (take i ys) \<or> q = ys ! i \<or> q \<in> set (drop (Suc i) ys)"
    by (metis Un_iff set_ConsD set_append)
  ultimately show ?thesis
    using later assms(4) by auto
qed

lemmas walk_eval =
  path_resolve_def sep_def isBundleExecutable_def endsWith_def hasValidHeader_def
  file_read_def Buffer_alloc_def readUInt32BE_def validHeaders_def Let_def macho_def

lemma demo_walk:
  "findFilesToSign (\<lambda>_. False) ''/w/Demo.app'' (Some demo_bundle) =
     ([''/w/Demo.app/Contents/MacOS/helper'',
       ''/w/Demo.app/Contents/Frameworks/F.framework/Versions/A/lib.dylib'',
       ''/w/Demo.app/Contents/Frameworks/F.framework'',
       ''/w/Demo.app''], Completed)"
  by (simp add: demo_bundle_def walk_eval)

lemma demo_wf: "wf_entries demo_bundle"
  by (simp add: demo_bundle_def valid_name_def sep_def)

text \<open>
  Claim C1. In a bundle tree whose directories hold distinct, well-formed names, every
  yielded path that lies strictly underneath the path yielded at position \<open>i\<close> was
  yielded before position \<open>i\<close>: a nested binary or bundle comes before every
  \<^verbatim>\<open>.app\<close> or \<^verbatim>\<open>.framework\<close> directory that contains it.
\<close>

theorem walker_yields_bottom_up:
  assumes "wf_entries entries"
    and "ys = fst (findFilesToSign isSigned dir (Some entries))"
    and "i < length ys" and "q \<in> set ys" and "is_under (ys ! i) q"
  shows "q \<in> set (take i ys)"
proof -
  have "bottom_up ys"
    using walk_bottom_up(1)[of "Some entries" isSigned dir] assms(1,2) by simp
  then show ?thesis
    using assms(3,4,5) by (rule bottom_up_before)
qed

theorem walker_yields_bottom_up_witness:
  "wf_entries demo_bundle \<and>
   fst (findFilesToSign (\<lambda>_. False) ''/w/Demo.app'' (Some demo_bundle)) ! 3 = ''/w/Demo.app'' \<and>
   is_under ''/w/Demo.app'' ''/w/Demo.app/Contents/MacOS/helper'' \<and>
   ''/w/Demo.app/Contents/MacOS/helper'' \<in>
     set (take 3 (fst (findFilesToSign (\<lambda>_. False) ''/w/Demo.app'' (Some demo_bundle))))"
proof -
  let ?ys = "fst (findFilesToSign (\<lambda>_. False) ''/w/Demo.app'' (Some demo_bundle))"
  have under: "is_under (?ys ! 3) ''/w/Demo.app/Contents/MacOS/helper''"
    by (simp del: findFilesToSign.simps add: demo_walk is_under_def sep_def)
  have "''/w/Demo.app/Contents/MacOS/helper'' \<in> set (take 3 ?ys)"
    using walker_yields_bottom_up[where i = 3 and q = "''/w/Demo.app/Contents/MacOS/helper''"
        and isSigned = "\<lambda>_. False" and dir = "''/w/Demo.app''", OF demo_wf refl] under
    by (simp del: findFilesToSign.simps add: demo_walk)
  with under show ?thesis
    using demo_wf by (simp del: findFilesToSign.simps add: demo_walk)
qed

section \<open>Properties of the classifier\<close>

text \<open>
  What the classifier computes, on the path's components: the file \<open>name\<close> is a bundle
  executable when it lies in \<^verbatim>\<open>Contents/MacOS\<close> of a directory whose name ends with
  \<open>name\<close> followed by \<^verbatim>\<open>.app\<close>, or when its grandparent is \<^verbatim>\<open>Versions\<close> and its
  great-grandparent is \<open>name\<close> followed by \<^verbatim>\<open>.framework\<close>. Every path that the
  specification's two patterns describe is classified so; the converse fails.
\<close>

lemma split_not_Nil [simp]: "split c s \<noteq> []"
  by (induction s) (auto split: list.splits)

lemma split_no_sep: "c \<notin> set n \<Longrightarrow> split c n = [n]"
  by (induction n) auto

lemma split_append_sep: "split c (xs @ c # ys) = split c xs @ split c ys"
proof (induction xs)
  case Nil
  then show ?case by simp
next
  case (Cons x xs)
  obtain p ps where "split c xs = p # ps"
    using split_not_Nil[of c xs] by (cases "split c xs") auto
  with Cons show ?case by simp
qed

lemma split_snoc:
  assumes "rev (split c s) = name # rest" and "rest \<noteq> []"
  shows "\<exists>s'. s = s' @ c # name \<and> rev (split c s') = rest \<and> c \<notin> set name"
proof -
  have "c \<in> set s"
  proof (rule ccontr)
    assume "c \<notin> set s"
    then have "split c s = [s]" by (rule split_no_sep)
    with assms show False by simp
  qed
  then obtain s' nm where s: "s = s' @ c # nm" and nm: "c \<notin> set nm"
    using split_list_last[of c s] by blast
  from nm have "split c nm = [nm]" by (rule split_no_sep)
  with s have "rev (split c s) = nm # rev (split c s')"
    by (simp add: split_append_sep)
  with assms(1) s nm show ?thesis by auto
qed

lemma split_single: "rev (split c s) = [x] \<Longrightarrow> s = x \<and> c \<notin> set x"
proof -
  assume a: "rev (split c s) = [x]"
  have "c \<notin> set s"
  proof
    assume "c \<in> set s"
    then obtain s' nm where s: "s = s' @ c # nm"
      using split_list[of c s] by blast
    have "length (split c s) \<ge> 2"
      unfolding s split_append_sep
      using split_not_Nil[of c s'] split_not_Nil[of c nm]
      by (cases "split c s'"; cases "split c nm") auto
    moreover from a have "length (split c s) = 1"
      by (metis length_rev length_Cons list.size(3) One_nat_def)
    ultimately show False by simp
  qed
  then have "split c s = [s]" by (rule split_no_sep)
  with a \<open>c \<notin> set s\<close> show ?thesis by simp
qed

lemma tail_unique:
  assumes "c \<notin> set y" and "c \<notin> set y'" and "x @ c # y = x' @ c # y'"
  shows "x = x' \<and> y = y'"
proof -
  from assms(3) have "rev y @ c # rev x = rev y' @ c # rev x'"
    by (metis rev.simps(2) rev_append append_assoc append_Cons append_Nil)
  moreover have "takeWhile (\<lambda>a. a \<noteq> c) (rev y @ c # rev x) = rev y"
    using assms(1) by (auto simp: takeWhile_tail)
  moreover have "takeWhile (\<lambda>a. a \<noteq> c) (rev y' @ c # rev x') = rev y'"
    using assms(2) by (auto simp: takeWhile_tail)
  ultimately have "rev y = rev y'" by simp
  then have "y = y'" by simp
  with assms(3) show ?thesis by simp
qed


lemma endsWith_iff: "endsWith s t \<longleftrightarrow> (\<exists>r. s = r @ t)"
proof
  assume "endsWith s t"
  then have "s = take (length s - length t) s @ t"
    by (metis append_take_drop_id endsWith_def)
  then show "\<exists>r. s = r @ t" ..
next
  assume "\<exists>r. s = r @ t"
  then show "endsWith s t" by (auto simp: endsWith_def)
qed

lemma four_parts:
  assumes "rev (split c p) = name # pdir # gp # great # others"
  shows "\<exists>q. p = q @ great @ c # gp @ c # pdir @ c # name \<and>
             (q = [] \<or> last q = c) \<and>
             c \<notin> set name \<and> c \<notin> set pdir \<and> c \<notin> set gp \<and> c \<notin> set great"
proof -
  from split_snoc[OF assms] obtain s1
    where s1: "p = s1 @ c # name" "rev (split c s1) = pdir # gp # great # others" "c \<notin> set name"
    by auto
  from split_snoc[OF s1(2)] obtain s2
    where s2: "s1 = s2 @ c # pdir" "rev (split c s2) = gp # great # others" "c \<notin> set pdir"
    by auto
  from split_snoc[OF s2(2)] obtain s3
    where s3: "s2 = s3 @ c # gp" "rev (split c s3) = great # others" "c \<notin> set gp"
    by auto
  have "\<exists>q. s3 = q @ great \<and> (q = [] \<or> last q = c) \<and> c \<notin> set great"
  proof (cases "others = []")
    case True
    with s3(2) split_single[of c s3 great] show ?thesis by auto
  next
    case False
    from split_snoc[OF s3(2) False] obtain s4
      where "s3 = s4 @ c # great" "c \<notin> set great" by auto
    then show ?thesis by (intro exI[of _ "s4 @ [c]"]) simp
  qed
  then obtain q where "s3 = q @ great" "q = [] \<or> last q = c" "c \<notin> set great" by blast
  with s1 s2 s3 show ?thesis by (intro exI[of _ q]) simp
qed

lemma app_pattern:
  assumes "rev (split sep p) = name # pdir # gp # great # others"
  shows "endsWith p (name @ ''.app/Contents/MacOS/'' @ name) \<longleftrightarrow>
         pdir = ''MacOS'' \<and> gp = ''Contents'' \<and> endsWith great (name @ ''.app'')"
proof -
  from four_parts[OF assms] obtain q
    where p: "p = q @ great @ sep # gp @ sep # pdir @ sep # name"
      and q: "q = [] \<or> last q = sep"
      and no: "sep \<notin> set name" "sep \<notin> set pdir" "sep \<notin> set gp" "sep \<notin> set great"
    by blast
  have lit: "sep \<notin> set ''MacOS''" "sep \<notin> set ''Contents''" "sep \<notin> set ''.app''"
    by (simp_all add: sep_def)
  have pat: "name @ ''.app/Contents/MacOS/'' @ name =
      (name @ ''.app'') @ sep # ''Contents'' @ sep # ''MacOS'' @ sep # name"
    by (simp add: sep_def)
  show ?thesis
  proof
    assume "endsWith p (name @ ''.app/Contents/MacOS/'' @ name)"
    then obtain r where "p = r @ (name @ ''.app'') @ sep # ''Contents'' @ sep # ''MacOS'' @ sep # name"
      unfolding endsWith_iff pat by blast
    with p have e1: "(q @ great @ sep # gp @ sep # pdir) @ sep # name =
        (r @ (name @ ''.app'') @ sep # ''Contents'' @ sep # ''MacOS'') @ sep # name"
      by simp
    from tail_unique[OF no(1) no(1) e1]
    have e2: "(q @ great @ sep # gp) @ sep # pdir =
        (r @ (name @ ''.app'') @ sep # ''Contents'') @ sep # ''MacOS''"
      by simp
    from tail_unique[OF no(2) lit(1) e2]
    have par: "pdir = ''MacOS''" and e3: "(q @ great) @ sep # gp = (r @ name @ ''.app'') @ sep # ''Contents''"
      by simp_all
    from tail_unique[OF no(3) lit(2) e3]
    have gp: "gp = ''Contents''" and e4: "q @ great = r @ name @ ''.app''"
      by simp_all
    have "endsWith great (name @ ''.app'')"
    proof -
      from e4 consider u where "q = r @ u" "u @ great = name @ ''.app''"
        | u where "q @ u = r" "great = u @ name @ ''.app''"
        by (auto simp: append_eq_append_conv2)
      then show ?thesis
      proof cases
        case 1
        have "u = []"
        proof (rule ccontr)
          assume u: "u \<noteq> []"
          with 1(1) have "q \<noteq> []" "last q = last u" by auto
          with q have "last u = sep" by auto
          with u have "sep \<in> set u" using last_in_set by metis
          then have "sep \<in> set (u @ great)" by simp
          with 1(2) no(1) lit(3) show False by auto
        qed
        with 1(2) show ?thesis by (simp add: endsWith_iff)
      next
        case 2
        then show ?thesis by (auto simp: endsWith_iff)
      qed
    qed
    with par gp show "pdir = ''MacOS'' \<and> gp = ''Contents'' \<and> endsWith great (name @ ''.app'')"
      by simp
  next
    assume a: "pdir = ''MacOS'' \<and> gp = ''Contents'' \<and> endsWith great (name @ ''.app'')"
    then obtain u where "great = u @ name @ ''.app''"
      by (auto simp: endsWith_iff)
    with p a have "p = (q @ u) @ (name @ ''.app'') @ sep # ''Contents'' @ sep # ''MacOS'' @ sep # name"
      by simp
    then show "endsWith p (name @ ''.app/Contents/MacOS/'' @ name)"
      unfolding endsWith_iff pat by blast
  qed
qed

lemma isBundleExecutable_iff:
  "isBundleExecutable p \<longleftrightarrow>
     (case rev (split sep p) of
        name # pdir # gp # great # others \<Rightarrow>
          (pdir = ''MacOS'' \<and> gp = ''Contents'' \<and> endsWith great (name @ ''.app'')) \<or>
          (gp = ''Versions'' \<and> great = name @ ''.framework'')
      | _ \<Rightarrow> False)"
proof (cases "rev (split sep p)")
  case Nil
  then show ?thesis by simp
next
  case (Cons name r1)
  show ?thesis
  proof (cases r1)
    case Nil
    with Cons show ?thesis by (simp add: isBundleExecutable_def)
  next
    case (Cons pdir r2)
    note c2 = this
    show ?thesis
    proof (cases r2)
      case Nil
      with \<open>rev (split sep p) = name # r1\<close> c2 show ?thesis
        by (simp add: isBundleExecutable_def)
    next
      case (Cons gp r3)
      note c3 = this
      show ?thesis
      proof (cases r3)
        case Nil
        with \<open>rev (split sep p) = name # r1\<close> c2 c3 show ?thesis
          by (simp add: isBundleExecutable_def)
      next
        case (Cons great others)
        with \<open>rev (split sep p) = name # r1\<close> c2 c3
        have parts: "rev (split sep p) = name # pdir # gp # great # others" by simp
        from app_pattern[OF parts] parts show ?thesis
          by (auto simp: isBundleExecutable_def Let_def)
      qed
    qed
  qed
qed

lemma spec_implies_isBundleExecutable:
  "spec_bundle_executable p \<Longrightarrow> isBundleExecutable p"
  unfolding isBundleExecutable_iff spec_bundle_executable_def spec_app_executable_def
    spec_framework_executable_def
  by (auto simp: endsWith_def split: list.splits)

text \<open>
  Claim C2. The classifier does not implement the application pattern on path
  components: it tests whether the whole path ends with
  \<^verbatim>\<open><Name>.app/Contents/MacOS/<Name>\<close>, so a file \<^verbatim>\<open>MyApp\<close> inside \<^verbatim>\<open>NotMyApp.app\<close> is
  skipped although the bundle's name differs from the file's. The two examples of the
  claim hold.
\<close>

theorem isBundleExecutable_foreign_app:
  "isBundleExecutable ''/Applications/NotMyApp.app/Contents/MacOS/MyApp'' \<and>
   \<not> spec_bundle_executable ''/Applications/NotMyApp.app/Contents/MacOS/MyApp'' \<and>
   isBundleExecutable ''MyApp.app/Contents/MacOS/MyApp'' \<and>
   \<not> isBundleExecutable ''MyApp.app/Contents/MacOS/Helper''"
  by (simp add: isBundleExecutable_def spec_bundle_executable_def spec_app_executable_def
      spec_framework_executable_def sep_def endsWith_def)

section \<open>Properties of the constraint evaluator\<close>

text \<open>
  On declarations without null in which every element of a sequence is a mapping, the
  code does what the specification says.
\<close>

lemma evaluate_agrees:
  "record_shaped c \<Longrightarrow> (case c of JObject _ \<Rightarrow> True | _ \<Rightarrow> False) \<Longrightarrow>
     evaluateConstraints t c = spec_evaluate t c"
  "record_shaped v \<Longrightarrow> evaluate_value t v = spec_evaluate t v"
proof (induction t c and t v rule: evaluateConstraints_evaluate_value.induct)
  case (1 t c)
  then obtain kvs where c: "c = JObject kvs" by (cases c) auto
  have "evaluate_value t v = spec_evaluate t v" if "(k, v) \<in> set kvs" for k v
    using "1.IH"[of "(k, v)" k v] "1.prems"(1) c that by auto
  then show ?case
    using c by auto
next
  case (2 t s)
  then show ?case by (simp add: substitute_string_def split: option.splits)
next
  case (3 t xs)
  have "evaluateConstraints t x = spec_evaluate t x" if "x \<in> set xs" for x
  proof -
    from "3.prems" that obtain kvs where x: "x = JObject kvs" and rs: "record_shaped x"
      by (cases x) auto
    from x have "case x of JObject _ \<Rightarrow> True | _ \<Rightarrow> False" by simp
    with "3.IH"[OF that rs] show ?thesis .
  qed
  then show ?case by simp
next
  case (4 t kvs)
  then show ?case by simp
next
  case (5 t)
  then show ?case by simp
next
  case (6 t b)
  then show ?case by simp
next
  case (7 t n)
  then show ?case by simp
qed

text \<open>
  Claim C3. The evaluator does not treat the elements of a sequence as values: it maps
  \<^verbatim>\<open>evaluateConstraints\<close> over them, which turns a string into an object of its
  characters, so a placeholder inside a sequence is not substituted; and null, whose
  \<^verbatim>\<open>typeof\<close> is \<^verbatim>\<open>'object'\<close>, becomes the empty object instead of passing through.
\<close>

theorem evaluateConstraints_sequence_of_strings:
  "evaluateConstraints (Some ''TEAM'') (JObject [(''$in'', JArray [JString ''${AC_TEAMID}''])]) =
     JObject [(''$in'', JArray [JObject
       [(''0'', JString ''$''), (''1'', JString ''{''), (''2'', JString ''A''),
        (''3'', JString ''C''), (''4'', JString ''_''), (''5'', JString ''T''),
        (''6'', JString ''E''), (''7'', JString ''A''), (''8'', JString ''M''),
        (''9'', JString ''I''), (''10'', JString ''D''), (''11'', JString ''}'')]])] \<and>
   spec_evaluate (Some ''TEAM'') (JObject [(''$in'', JArray [JString ''${AC_TEAMID}''])]) =
     JObject [(''$in'', JArray [JString ''TEAM''])] \<and>
   evaluateConstraints None (JObject [(''k'', JNull)]) = JObject [(''k'', JObject [])] \<and>
   spec_evaluate None (JObject [(''k'', JNull)]) = JObject [(''k'', JNull)]"
  by (simp add: index_keys_def digit_def substitute_string_def upt_rec)

section \<open>Properties of a run\<close>


lemma subseq_set: "subseq xs ys \<Longrightarrow> set xs \<subseteq> set ys"
  by (induction rule: list_emb.induct) auto

lemma perform_all_trace:
  "\<exists>tr. fst (perform_all w es h) = h @ tr \<and> subseq tr es"
proof (induction es arbitrary: h)
  case Nil
  then show ?case by simp
next
  case (Cons e es)
  show ?case
  proof (cases "effect_ok w h e")
    case True
    from Cons.IH[of "h @ [e]"] obtain tr
      where "fst (perform_all w es (h @ [e])) = (h @ [e]) @ tr" "subseq tr es" by blast
    with True show ?thesis by (intro exI[of _ "e # tr"]) simp
  next
    case False
    from Cons.IH[of h] obtain tr
      where "fst (perform_all w es h) = h @ tr" "subseq tr es" by blast
    with False show ?thesis by (intro exI[of _ tr]) auto
  qed
qed

lemma perform_all_none:
  "snd (perform_all w es h) = None \<Longrightarrow> fst (perform_all w es h) = h @ es"
  by (induction es arbitrary: h) (auto split: if_splits)

lemma perform_all_failure:
  "e \<in> set es \<Longrightarrow> \<forall>h. \<not> effect_ok w h e \<Longrightarrow>
     \<exists>e' \<in> set es. snd (perform_all w es h) = Some e'"
  by (induction es arbitrary: h) auto

lemma exec_trace:
  "\<exists>tr. fst (exec w plan h) = h @ tr \<and> subseq tr (planned plan)"
proof (induction w plan h rule: exec.induct)
  case (1 w h)
  then show ?case by simp
next
  case (2 w e rest h)
  show ?case
  proof (cases "effect_ok w h e")
    case True
    from 2[OF True] obtain tr
      where "fst (exec w rest (h @ [e])) = (h @ [e]) @ tr" "subseq tr (planned rest)" by blast
    with True show ?thesis by (intro exI[of _ "e # tr"]) simp
  next
    case False
    then show ?thesis by simp
  qed
next
  case (3 w es rest h)
  obtain h' r where p: "perform_all w es h = (h', r)" by (cases "perform_all w es h")
  from perform_all_trace[of w es h] p obtain tr1
    where tr1: "h' = h @ tr1" "subseq tr1 es" by auto
  show ?case
  proof (cases r)
    case None
    from 3[OF p[symmetric] None] obtain tr
      where "fst (exec w rest h') = h' @ tr" "subseq tr (planned rest)" by blast
    with tr1 p None show ?thesis
      by (intro exI[of _ "tr1 @ tr"]) (simp add: list_emb_append_mono)
  next
    case (Some e)
    with tr1 p show ?thesis
      by (intro exI[of _ tr1]) (simp add: subseq_rev_drop_many)
  qed
next
  case (4 w f rest h)
  then show ?case by simp
qed

lemma exec_completed:
  "snd (exec w plan h) = None \<Longrightarrow> fst (exec w plan h) = h @ planned plan"
proof (induction w plan h rule: exec.induct)
  case (3 w es rest h)
  obtain h' r where p: "perform_all w es h = (h', r)" by (cases "perform_all w es h")
  with "3.prems" have r: "r = None" by (cases r) auto
  with perform_all_none[of w es h] p have "h' = h @ es" by simp
  with 3 p r show ?case by simp
qed (auto split: if_splits)

lemma exec_append:
  "exec w (p1 @ p2) h =
     (case exec w p1 h of (h1, None) \<Rightarrow> exec w p2 h1 | (h1, Some f) \<Rightarrow> (h1, Some f))"
  by (induction w p1 h rule: exec.induct) (auto split: prod.splits option.splits)

lemma planned_append [simp]: "planned (p1 @ p2) = planned p1 @ planned p2"
  by (induction p1 rule: planned.induct) auto

lemma sign_trace:
  "subseq (fst (sign w workDir)) (planned (sign_plan w workDir))"
  using exec_trace[of w "sign_plan w workDir" "[]"]
  by (auto simp: sign_def split: prod.splits option.splits)

lemma sign_completed:
  "snd (sign w workDir) = Inr dmg \<Longrightarrow> fst (sign w workDir) = planned (sign_plan w workDir)"
  using exec_completed[of w "sign_plan w workDir" "[]"]
  by (auto simp: sign_def split: prod.splits option.splits)





lemma entitlementFile_eq [simp]:
  "entitlementFile d a = entitlementFile d b \<longleftrightarrow> a = b"
  by (simp add: entitlementFile_def path_join_def)

lemma constraint_name_not_entitlement_name:
  assumes "t \<in> set constraintTypes"
  shows "h @ ''-constraint-'' @ t @ ''.plist'' \<noteq> n @ ''-entitlement.plist''"
proof
  assume eq: "h @ ''-constraint-'' @ t @ ''.plist'' = n @ ''-entitlement.plist''"
  from assms consider "t = ''self''" | "t = ''parent''" | "t = ''responsible''"
    by (auto simp: constraintTypes_def)
  then show False
  proof cases
    case 1
    have "rev (h @ ''-constraint-'' @ ''self'' @ ''.plist'') = rev (n @ ''-entitlement.plist'')"
      using eq unfolding 1 by (rule arg_cong)
    then show False by simp
  next
    case 2
    have "rev (h @ ''-constraint-'' @ ''parent'' @ ''.plist'') = rev (n @ ''-entitlement.plist'')"
      using eq unfolding 2 by (rule arg_cong)
    then show False by simp
  next
    case 3
    have "rev (h @ ''-constraint-'' @ ''responsible'' @ ''.plist'') = rev (n @ ''-entitlement.plist'')"
      using eq unfolding 3 by (rule arg_cong)
    then show False by simp
  qed
qed

lemma constraintsFile_not_entitlementFile:
  assumes "t \<in> set constraintTypes"
  shows "constraintsFile d h t \<noteq> entitlementFile d n"
  using constraint_name_not_entitlement_name[OF assms, of h n]
  by (simp add: constraintsFile_def entitlementFile_def path_join_def)

lemma constraint_steps_eq:
  "constraint_steps teamId d h lc types =
     (map (\<lambda>t. Do (WriteFile (constraintsFile d h t)
                      (Plist (evaluateConstraints teamId (the (constraint_of lc t))))))
          (filter (present lc) types),
      concat (map (\<lambda>t. [constraint_flag t, constraintsFile d h t]) (filter (present lc) types)))"
  by (induction types) (auto simp: present_def split: option.splits prod.splits)

lemma planned_map_Do [simp]: "planned (map (\<lambda>x. Do (f x)) xs) = map f xs"
  by (induction xs) auto


lemma writes_to_append [simp]: "writes_to f (xs @ ys) = writes_to f xs + writes_to f ys"
  by (simp add: writes_to_def)

lemma writes_to_Nil [simp]: "writes_to f [] = 0"
  by (simp add: writes_to_def)

lemma writes_to_Cons [simp]:
  "writes_to f (e # es) = (if is_write_to f e then 1 else 0) + writes_to f es"
  by (simp add: writes_to_def)





lemma planned_signing_steps:
  "planned (signing_steps w workDir) =
     [ReadFile (path_join (app_dir workDir) ''Contents/electron-builder.yml''),
      ReadFile (path_join (app_dir workDir) ''Contents/build/signing-config-mac.yaml''),
      ConsoleLog ''Removing excess files...''] @
     map (\<lambda>relpath. Rm (path_join (app_dir workDir) relpath) True False)
       (remove (signingConfig w)) @
     [ConsoleLog ''Signing application...'', Mkdir (plists_dir workDir)] @
     planned (sign_files w (app_dir workDir) (plists_dir workDir) (certificate w) False
       (fst (findFilesToSign (alreadySigned w) (app_dir workDir) (bundle_tree w)))) @
     [ConsoleLog ''Verifying application signature...'',
      Spawn ''codesign'' [''--verify'', ''--deep'', ''--strict'', ''--verbose=2'', app_dir workDir],
      Spawn ''codesign'' [''--display'', ''--entitlements'', ''-'', app_dir workDir]]"
  by (simp add: signing_steps_def Let_def split: prod.splits walk_end.splits)

lemma writes_to_removals [simp]:
  "writes_to f (map (\<lambda>relpath. Rm (g relpath) a b) rs) = 0"
  by (induction rs) auto


lemma writes_notarize_steps [simp]:
  "writes_to f (planned (notarize_steps w workDir)) = 0"
  by (simp add: notarize_steps_def)

lemma writes_package_steps [simp]:
  "writes_to f (planned (package_steps w workDir)) = 0"
  by (simp add: package_steps_def Let_def split: option.splits)




lemmas run_eval =
  signing_steps_def sign_plan_def notarize_steps_def package_steps_def sign_def
  app_dir_def plists_dir_def path_join_def certificate_def env_value_def given_def dmg_file_def
  sign_file_def entitlementName_def entitlementsOverride_def resolved_entitlements_def
  entitlementFile_def launchConstraints_def constraintTypes_def constraint_of_def
  constraintsFile_def constraint_flag_def path_relative_def Object_fromEntries_def sep_def
  endsWith_def

lemma demo_yield:
  "findFilesToSign (\<lambda>p. False) ''/w/unpacked/Rancher Desktop.app'' (Some demo_bundle) =
     ([''/w/unpacked/Rancher Desktop.app/Contents/MacOS/Demo'',
       ''/w/unpacked/Rancher Desktop.app/Contents/MacOS/helper'',
       ''/w/unpacked/Rancher Desktop.app/Contents/Frameworks/F.framework/Versions/A/lib.dylib'',
       ''/w/unpacked/Rancher Desktop.app/Contents/Frameworks/F.framework'',
       ''/w/unpacked/Rancher Desktop.app''], Completed)"
  by (simp add: demo_bundle_def walk_eval)

lemma demo_signing_completes: "signing_completes demo_world ''/w''"
  by (simp add: signing_completes_def demo_world_def demo_config_def run_eval demo_yield Let_def
      del: findFilesToSign.simps)





lemma sign_trace_set: "set (fst (sign w workDir)) \<subseteq> set (planned (sign_plan w workDir))"
  by (rule subseq_set[OF sign_trace])

lemma signing_steps_split:
  "\<exists>rest. signing_steps w workDir = removal_steps w workDir @ rest"
  by (simp add: signing_steps_def removal_steps_def Let_def split: prod.splits)

lemma removal_fails:
  assumes "r \<in> set (remove (signingConfig w))"
    and "\<not> path_exists w (path_join (app_dir workDir) r)"
  shows "\<exists>f. snd (exec w (removal_steps w workDir) []) = Some f \<and>
          (effect_ok w [] (ReadFile (path_join (app_dir workDir) ''Contents/electron-builder.yml'')) \<and>
           effect_ok w [ReadFile (path_join (app_dir workDir) ''Contents/electron-builder.yml'')]
             (ReadFile (path_join (app_dir workDir) ''Contents/build/signing-config-mac.yaml'')) \<longrightarrow>
           (\<exists>r' \<in> set (remove (signingConfig w)).
              f = Failed (Rm (path_join (app_dir workDir) r') True False)))"
proof -
  let ?rms = "map (\<lambda>relpath. Rm (path_join (app_dir workDir) relpath) True False)
               (remove (signingConfig w))"
  have "Rm (path_join (app_dir workDir) r) True False \<in> set ?rms"
    using assms(1) by auto
  moreover have "\<forall>h. \<not> effect_ok w h (Rm (path_join (app_dir workDir) r) True False)"
    using assms(2) by simp
  ultimately have "\<exists>e' \<in> set ?rms. snd (perform_all w ?rms h) = Some e'" for h
    by (rule perform_all_failure)
  then have "\<exists>r' \<in> set (remove (signingConfig w)).
      snd (perform_all w ?rms h) = Some (Rm (path_join (app_dir workDir) r') True False)" for h
    by fastforce
  note rm = this
  let ?r1 = "ReadFile (path_join (app_dir workDir) ''Contents/electron-builder.yml'')"
  let ?r2 = "ReadFile (path_join (app_dir workDir) ''Contents/build/signing-config-mac.yaml'')"
  let ?h = "[?r1, ?r2, ConsoleLog ''Removing excess files...'']"
  show ?thesis
  proof (cases "effect_ok w [] ?r1 \<and> effect_ok w [?r1] ?r2")
    case True
    from rm[of ?h] obtain r' where r': "r' \<in> set (remove (signingConfig w))"
      "snd (perform_all w ?rms ?h) = Some (Rm (path_join (app_dir workDir) r') True False)"
      by blast
    obtain h' where "perform_all w ?rms ?h = (h', Some (Rm (path_join (app_dir workDir) r') True False))"
      using r'(2) by (cases "perform_all w ?rms ?h") simp
    with True have "snd (exec w (removal_steps w workDir) []) =
        Some (Failed (Rm (path_join (app_dir workDir) r') True False))"
      by (simp add: removal_steps_def)
    with r'(1) show ?thesis by blast
  next
    case False
    then have "\<exists>f. snd (exec w (removal_steps w workDir) []) = Some f"
      by (auto simp: removal_steps_def)
    with False show ?thesis by blast
  qed
qed

lemma no_codesign_in_removal:
  "\<forall>e \<in> set (planned (removal_steps w workDir)). \<not> is_codesign e"
  by (auto simp: removal_steps_def)

text \<open>
  Claim C10. When a path of the remove list does not exist under the bundle, the run
  ends with a failure and no \<^verbatim>\<open>codesign\<close> invocation has happened; when the run got as
  far as the removals (the certificate is given and both configuration files were read),
  the failure is that of a removal.
\<close>

theorem missing_removal_aborts:
  assumes "r \<in> set (remove (signingConfig w))"
    and "\<not> path_exists w (path_join (app_dir workDir) r)"
  shows "(\<exists>f. snd (sign w workDir) = Inl f) \<and>
         (\<forall>e \<in> set (fst (sign w workDir)). \<not> is_codesign e) \<and>
         (certificate w \<noteq> [] \<and>
          effect_ok w [] (ReadFile (path_join (app_dir workDir) ''Contents/electron-builder.yml'')) \<and>
          effect_ok w [ReadFile (path_join (app_dir workDir) ''Contents/electron-builder.yml'')]
            (ReadFile (path_join (app_dir workDir) ''Contents/build/signing-config-mac.yaml'')) \<longrightarrow>
          (\<exists>r' \<in> set (remove (signingConfig w)).
             snd (sign w workDir) = Inl (Failed (Rm (path_join (app_dir workDir) r') True False))))"
proof (cases "certificate w = []")
  case True
  then show ?thesis by (simp add: sign_def sign_plan_def)
next
  case False
  from removal_fails[OF assms] obtain f
    where f: "snd (exec w (removal_steps w workDir) []) = Some f"
      and which: "effect_ok w [] (ReadFile (path_join (app_dir workDir) ''Contents/electron-builder.yml'')) \<and>
           effect_ok w [ReadFile (path_join (app_dir workDir) ''Contents/electron-builder.yml'')]
             (ReadFile (path_join (app_dir workDir) ''Contents/build/signing-config-mac.yaml'')) \<longrightarrow>
           (\<exists>r' \<in> set (remove (signingConfig w)).
              f = Failed (Rm (path_join (app_dir workDir) r') True False))"
    by blast
  obtain h where ex: "exec w (removal_steps w workDir) [] = (h, Some f)"
    using f by (cases "exec w (removal_steps w workDir) []") simp
  from signing_steps_split obtain rest
    where "signing_steps w workDir = removal_steps w workDir @ rest" by blast
  then have plan: "sign_plan w workDir =
      removal_steps w workDir @ (rest @ notarize_steps w workDir @ package_steps w workDir)"
    using False by (simp add: sign_plan_def)
  have run: "exec w (sign_plan w workDir) [] = (h, Some f)"
    unfolding plan using ex by (simp add: exec_append)
  then have res: "sign w workDir = (h, Inl f)"
    by (simp add: sign_def)
  from exec_trace[of w "removal_steps w workDir" "[]"] ex
  have "subseq h (planned (removal_steps w workDir))" by simp
  then have "set h \<subseteq> set (planned (removal_steps w workDir))" by (rule subseq_set)
  with no_codesign_in_removal[of w workDir]
  have "\<forall>e \<in> set h. \<not> is_codesign e" by blast
  with res which show ?thesis by simp
qed

theorem missing_removal_aborts_witness:
  "''Contents/Resources/unused.txt'' \<in>
     set (remove (signingConfig (demo_world\<lparr>path_exists := (\<lambda>p. False)\<rparr>))) \<and>
   \<not> path_exists (demo_world\<lparr>path_exists := (\<lambda>p. False)\<rparr>)
       (path_join (app_dir ''/w'') ''Contents/Resources/unused.txt'') \<and>
   snd (sign (demo_world\<lparr>path_exists := (\<lambda>p. False)\<rparr>) ''/w'') =
     Inl (Failed (Rm (path_join (app_dir ''/w'') ''Contents/Resources/unused.txt'') True False)) \<and>
   filter is_codesign (fst (sign (demo_world\<lparr>path_exists := (\<lambda>p. False)\<rparr>) ''/w'')) = []"
proof -
  let ?w = "demo_world\<lparr>path_exists := (\<lambda>p. False)\<rparr>"
  have r: "''Contents/Resources/unused.txt'' \<in> set (remove (signingConfig ?w))"
    by (simp add: demo_world_def demo_config_def)
  have missing: "\<not> path_exists ?w (path_join (app_dir ''/w'') ''Contents/Resources/unused.txt'')"
    by simp
  have reached: "certificate ?w \<noteq> []"
    "effect_ok ?w [] (ReadFile (path_join (app_dir ''/w'') ''Contents/electron-builder.yml''))"
    "effect_ok ?w [ReadFile (path_join (app_dir ''/w'') ''Contents/electron-builder.yml'')]
       (ReadFile (path_join (app_dir ''/w'') ''Contents/build/signing-config-mac.yaml''))"
    by (simp_all add: demo_world_def certificate_def env_value_def)
  have only: "set (remove (signingConfig ?w)) = {''Contents/Resources/unused.txt''}"
    by (simp add: demo_world_def demo_config_def)
  from missing_removal_aborts[OF r missing] reached only
  have "snd (sign ?w ''/w'') =
      Inl (Failed (Rm (path_join (app_dir ''/w'') ''Contents/Resources/unused.txt'') True False))"
    and "\<forall>e \<in> set (fst (sign ?w ''/w'')). \<not> is_codesign e"
    by auto
  with r missing show ?thesis
    by (simp add: filter_empty_conv)
qed

lemma sign_file_no_notarize:
  "\<forall>e \<in> set (planned (fst (sign_file w a d c wrote p))). \<not> is_notarize e"
  by (auto simp: sign_file_def Let_def constraint_steps_eq split: prod.splits)

lemma sign_files_no_notarize:
  "\<forall>e \<in> set (planned (sign_files w a d c wrote ys)). \<not> is_notarize e"
proof (induction ys arbitrary: wrote)
  case Nil
  then show ?case by simp
next
  case (Cons y ys)
  obtain steps wrote' where sf: "sign_file w a d c wrote y = (steps, wrote')"
    by (cases "sign_file w a d c wrote y")
  with sign_file_no_notarize[of w a d c wrote y]
  have "\<forall>e \<in> set (planned steps). \<not> is_notarize e" by simp
  with sf Cons.IH[of wrote'] show ?case by auto
qed

lemma signing_steps_no_notarize:
  "\<forall>e \<in> set (planned (signing_steps w workDir)). \<not> is_notarize e"
  using sign_files_no_notarize by (auto simp: planned_signing_steps)

lemma package_steps_no_notarize:
  "\<forall>e \<in> set (planned (package_steps w workDir)). \<not> is_notarize e"
  by (auto simp: package_steps_def Let_def split: option.splits)

lemma notarize_steps_no_notarize:
  assumes "\<not> given (APPLEID w) \<or> \<not> given (AC_PASSWORD w) \<or> \<not> given (AC_TEAMID w) \<or>
           ''--skip-notarize'' \<in> set (argv w)"
  shows "\<forall>e \<in> set (planned (notarize_steps w workDir)). \<not> is_notarize e"
  using assms by (auto simp: notarize_steps_def)

lemma never_notarized:
  assumes "\<not> given (APPLEID w) \<or> \<not> given (AC_PASSWORD w) \<or> \<not> given (AC_TEAMID w) \<or>
           ''--skip-notarize'' \<in> set (argv w)"
  shows "\<forall>e \<in> set (fst (sign w workDir)). \<not> is_notarize e"
proof -
  have "\<forall>e \<in> set (planned (sign_plan w workDir)). \<not> is_notarize e"
    using signing_steps_no_notarize[of w workDir] package_steps_no_notarize[of w workDir]
      notarize_steps_no_notarize[OF assms, of workDir]
    by (auto simp: sign_plan_def)
  with sign_trace_set[of w workDir] show ?thesis by blast
qed

lemma cannot_notarize_other: "cannot_notarize \<noteq> ''Could not find signed disk image''"
  by (simp add: cannot_notarize_def)

lemma skip_flag_continues:
  assumes "signing_completes w workDir" and "''--skip-notarize'' \<in> set (argv w)"
  shows "ConsoleWarn ''Skipping notarization: --skip-notarize given.'' \<in> set (fst (sign w workDir)) \<and>
         ConsoleLog ''Building disk image...'' \<in> set (fst (sign w workDir)) \<and>
         snd (sign w workDir) \<noteq> Inl (Thrown cannot_notarize)"
proof -
  from assms(1) have cert: "\<not> length (certificate w) < 1"
    and fin: "snd (exec w (signing_steps w workDir) []) = None"
    by (simp_all add: signing_completes_def)
  let ?h = "planned (signing_steps w workDir)"
  from exec_completed[OF fin]
  have ex: "exec w (signing_steps w workDir) [] = (?h, None)"
    using fin by (cases "exec w (signing_steps w workDir) []") simp
  let ?h2 = "?h @ [ConsoleWarn ''Skipping notarization: --skip-notarize given.'',
                   ConsoleLog ''Building disk image...'']"
  obtain rest where pk: "package_steps w workDir = Do (ConsoleLog ''Building disk image...'') # rest"
    and rest: "\<forall>s \<in> set rest. s \<noteq> Fail (Thrown cannot_notarize)"
    using cannot_notarize_other
    by (auto simp: package_steps_def Let_def split: option.splits)
  have run: "exec w (sign_plan w workDir) [] = exec w rest ?h2"
    using cert ex assms(2) by (simp add: sign_plan_def exec_append notarize_steps_def pk)
  from exec_trace[of w rest ?h2] obtain tr
    where tr: "fst (exec w rest ?h2) = ?h2 @ tr" by blast
  have nofail: "snd (exec w rest h) \<noteq> Some (Thrown cannot_notarize)" for h
    using rest by (induction w rest h rule: exec.induct) (auto split: prod.splits option.splits)
  from run tr have "fst (sign w workDir) = ?h2 @ tr"
    by (auto simp: sign_def split: prod.splits option.splits)
  moreover from run nofail[of ?h2] have "snd (sign w workDir) \<noteq> Inl (Thrown cannot_notarize)"
    by (auto simp: sign_def split: prod.splits option.splits)
  ultimately show ?thesis by simp
qed

lemma no_flag_fails:
  assumes "signing_completes w workDir" and "''--skip-notarize'' \<notin> set (argv w)"
    and "\<not> given (APPLEID w) \<or> \<not> given (AC_PASSWORD w) \<or> \<not> given (AC_TEAMID w)"
  shows "snd (sign w workDir) = Inl (Thrown cannot_notarize)"
proof -
  from assms(1) have cert: "\<not> length (certificate w) < 1"
    and fin: "snd (exec w (signing_steps w workDir) []) = None"
    by (simp_all add: signing_completes_def)
  from exec_completed[OF fin]
  have ex: "exec w (signing_steps w workDir) [] = (planned (signing_steps w workDir), None)"
    using fin by (cases "exec w (signing_steps w workDir) []") simp
  have "notarize_steps w workDir = [Fail (Thrown cannot_notarize)]"
    using assms(2,3) by (auto simp: notarize_steps_def)
  with cert ex have "exec w (sign_plan w workDir) [] =
      (planned (signing_steps w workDir), Some (Thrown cannot_notarize))"
    by (simp add: sign_plan_def exec_append)
  then show ?thesis by (simp add: sign_def)
qed

text \<open>
  Claim C5. When one of the three credentials is missing or empty, no run notarizes.
  With \<^verbatim>\<open>--skip-notarize\<close> on the command line, a run whose signing phase went through
  prints the warning and goes on to build the disk image; it does not fail for the
  missing credentials. Without the flag such a run fails with the message that asks for
  the credentials.
\<close>

theorem missing_credentials_skip_notarization:
  "(\<not> given (APPLEID w) \<or> \<not> given (AC_PASSWORD w) \<or> \<not> given (AC_TEAMID w) \<longrightarrow>
      (\<forall>e \<in> set (fst (sign w workDir)). \<not> is_notarize e)) \<and>
   ((\<not> given (APPLEID w) \<or> \<not> given (AC_PASSWORD w) \<or> \<not> given (AC_TEAMID w)) \<and>
    ''--skip-notarize'' \<in> set (argv w) \<and> signing_completes w workDir \<longrightarrow>
      ConsoleWarn ''Skipping notarization: --skip-notarize given.'' \<in> set (fst (sign w workDir)) \<and>
      ConsoleLog ''Building disk image...'' \<in> set (fst (sign w workDir)) \<and>
      snd (sign w workDir) \<noteq> Inl (Thrown cannot_notarize)) \<and>
   ((\<not> given (APPLEID w) \<or> \<not> given (AC_PASSWORD w) \<or> \<not> given (AC_TEAMID w)) \<and>
    ''--skip-notarize'' \<notin> set (argv w) \<and> signing_completes w workDir \<longrightarrow>
      snd (sign w workDir) = Inl (Thrown cannot_notarize))"
  using never_notarized[of w workDir] skip_flag_continues[of w workDir] no_flag_fails[of w workDir]
  by blast

theorem missing_credentials_skip_notarization_witness:
  "\<not> given (APPLEID demo_world) \<and>
   ''--skip-notarize'' \<in> set (argv demo_world) \<and>
   signing_completes demo_world ''/w'' \<and>
   ConsoleWarn ''Skipping notarization: --skip-notarize given.'' \<in> set (fst (sign demo_world ''/w'')) \<and>
   ConsoleLog ''Building disk image...'' \<in> set (fst (sign demo_world ''/w'')) \<and>
   snd (sign demo_world ''/w'') \<noteq> Inl (Thrown cannot_notarize) \<and>
   filter is_notarize (fst (sign demo_world ''/w'')) = []"
proof -
  have absent: "\<not> given (APPLEID demo_world)"
    by (simp add: demo_world_def given_def)
  have flag: "''--skip-notarize'' \<in> set (argv demo_world)"
    by (simp add: demo_world_def)
  from missing_credentials_skip_notarization[of demo_world "''/w''"] absent flag
    demo_signing_completes
  have "ConsoleWarn ''Skipping notarization: --skip-notarize given.'' \<in> set (fst (sign demo_world ''/w''))"
    "ConsoleLog ''Building disk image...'' \<in> set (fst (sign demo_world ''/w''))"
    "snd (sign demo_world ''/w'') \<noteq> Inl (Thrown cannot_notarize)"
    "\<forall>e \<in> set (fst (sign demo_world ''/w'')). \<not> is_notarize e"
    by blast+
  with absent flag demo_signing_completes show ?thesis
    by (simp add: filter_empty_conv)
qed

lemma constraintsFile_eq [simp]:
  "constraintsFile d h t = constraintsFile d h t' \<longleftrightarrow> t = t'"
  by (simp add: constraintsFile_def path_join_def)

lemma constraint_flag_eq [simp]:
  "constraint_flag t = constraint_flag t' \<longleftrightarrow> t = t'"
  by (simp add: constraint_flag_def)

lemma sep_in_constraintsFile: "sep \<in> set (constraintsFile d h t)"
  by (simp add: constraintsFile_def path_join_def)

lemma sep_in_entitlementFile: "sep \<in> set (entitlementFile d n)"
  by (simp add: entitlementFile_def path_join_def)

lemma sep_notin_flag: "t \<in> set constraintTypes \<Longrightarrow> sep \<notin> set (constraint_flag t)"
  by (auto simp: constraintTypes_def constraint_flag_def sep_def)

lemma flag_not_file:
  "t \<in> set constraintTypes \<Longrightarrow> constraint_flag t \<noteq> constraintsFile d h t'"
  "t \<in> set constraintTypes \<Longrightarrow> constraintsFile d h t' \<noteq> constraint_flag t"
  "t \<in> set constraintTypes \<Longrightarrow> constraint_flag t \<noteq> entitlementFile d n"
  "t \<in> set constraintTypes \<Longrightarrow> entitlementFile d n \<noteq> constraint_flag t"
  using sep_in_constraintsFile[of d h t'] sep_in_entitlementFile[of d n] sep_notin_flag[of t]
  by auto

lemma literal_not_file:
  "sep \<notin> set x \<Longrightarrow> x \<noteq> constraintsFile d h t"
  "sep \<notin> set x \<Longrightarrow> constraintsFile d h t \<noteq> x"
  using sep_in_constraintsFile[of d h t] by auto

lemma sign_file_steps:
  "fst (sign_file w a d c wrote p) =
     (if \<not> wrote \<or> entitlementName (signingConfig w) (path_relative a p)
            (fileHash (sha256 w) (path_relative a p)) \<noteq> ''default''
      then [Do (WriteFile
              (entitlementFile d (entitlementName (signingConfig w) (path_relative a p)
                 (fileHash (sha256 w) (path_relative a p))))
              (Plist (Object_fromEntries (map (\<lambda>k. (k, JBool True))
                 (resolved_entitlements (signingConfig w) (path_relative a p))))))]
      else []) @
     fst (constraint_steps (AC_TEAMID w) d (fileHash (sha256 w) (path_relative a p))
            (launchConstraints (signingConfig w) (path_relative a p)) constraintTypes) @
     [Do (Spawn ''codesign''
        ([''--sign'', c, ''--force'', ''--timestamp'', ''--options'', ''runtime'',
          ''--entitlements'',
          entitlementFile d (entitlementName (signingConfig w) (path_relative a p)
             (fileHash (sha256 w) (path_relative a p)))] @
         snd (constraint_steps (AC_TEAMID w) d (fileHash (sha256 w) (path_relative a p))
            (launchConstraints (signingConfig w) (path_relative a p)) constraintTypes) @
         [p]))]"
  by (simp add: sign_file_def Let_def split: prod.splits)

lemma invocations_append [simp]: "invocations (xs @ ys) = invocations xs @ invocations ys"
  by (induction xs rule: invocations.induct) auto

lemma invocations_constraint_steps [simp]:
  "invocations (fst (constraint_steps teamId d h lc types)) = []"
  by (induction types) (auto split: option.splits prod.splits)

lemma constraint_writes:
  assumes "t \<in> set constraintTypes"
  shows "writes_to (constraintsFile d h t)
           (planned (fst (constraint_steps teamId d h lc constraintTypes))) =
         (if present lc t then 1 else 0)"
  using assms
  by (auto simp: constraintTypes_def present_def split: option.splits)

lemma pair_count_skip1: "x \<noteq> a \<Longrightarrow> pair_count a b (x # xs) = pair_count a b xs"
  by (cases xs) auto

lemma pair_count_skip2: "y \<noteq> b \<Longrightarrow> pair_count a b (x # y # rest) = pair_count a b (y # rest)"
  by simp

lemma pair_count_flags:
  assumes "t \<in> set constraintTypes" and "set ts \<subseteq> set constraintTypes" and "distinct ts"
  shows "pair_count (constraint_flag t) (constraintsFile d h t)
           (concat (map (\<lambda>t'. [constraint_flag t', constraintsFile d h t']) ts) @ [p]) =
         (if t \<in> set ts then 1 else 0)"
  using assms(2,3)
proof (induction ts)
  case Nil
  then show ?case by simp
next
  case (Cons t1 ts)
  let ?rest = "concat (map (\<lambda>t'. [constraint_flag t', constraintsFile d h t']) ts) @ [p]"
  have fl: "constraintsFile d h t1 \<noteq> constraint_flag t"
    by (rule flag_not_file(2)[OF assms(1)])
  have "pair_count (constraint_flag t) (constraintsFile d h t)
          (constraint_flag t1 # constraintsFile d h t1 # ?rest) =
        (if t1 = t then 1 else 0) +
        pair_count (constraint_flag t) (constraintsFile d h t) (constraintsFile d h t1 # ?rest)"
    by simp
  also have "pair_count (constraint_flag t) (constraintsFile d h t) (constraintsFile d h t1 # ?rest) =
      pair_count (constraint_flag t) (constraintsFile d h t) ?rest"
    using fl by (rule pair_count_skip1)
  also have "\<dots> = (if t \<in> set ts then 1 else 0)"
    using Cons by simp
  finally show ?case
    using Cons.prems by auto
qed

lemma pair_count_base:
  assumes "t \<in> set constraintTypes"
  shows "pair_count (constraint_flag t) (constraintsFile d h t)
           (''--sign'' # c # ''--force'' # ''--timestamp'' # ''--options'' # ''runtime'' #
             ''--entitlements'' # entitlementFile d n # rest) =
         pair_count (constraint_flag t) (constraintsFile d h t) rest"
proof -
  let ?a = "constraint_flag t" and ?b = "constraintsFile d h t"
  have a: "''--sign'' \<noteq> ?a" "''--force'' \<noteq> ?a" "''--timestamp'' \<noteq> ?a" "''--options'' \<noteq> ?a"
    "''runtime'' \<noteq> ?a" "''--entitlements'' \<noteq> ?a"
    by (simp_all add: constraint_flag_def)
  have e: "entitlementFile d n \<noteq> ?a"
    by (rule flag_not_file(4)[OF assms])
  have b: "''--force'' \<noteq> ?b"
    by (rule literal_not_file(1)) (simp add: sep_def)
  have "pair_count ?a ?b (''--sign'' # c # ''--force'' # ''--timestamp'' # ''--options'' #
             ''runtime'' # ''--entitlements'' # entitlementFile d n # rest) =
        pair_count ?a ?b (c # ''--force'' # ''--timestamp'' # ''--options'' # ''runtime'' #
             ''--entitlements'' # entitlementFile d n # rest)"
    using a(1) by (rule pair_count_skip1)
  also have "\<dots> = pair_count ?a ?b (''--force'' # ''--timestamp'' # ''--options'' # ''runtime'' #
             ''--entitlements'' # entitlementFile d n # rest)"
    using b by (rule pair_count_skip2)
  also have "\<dots> = pair_count ?a ?b rest"
    using a e by (simp add: pair_count_skip1 del: pair_count.simps)
  finally show ?thesis .
qed

lemma constraint_pairs:
  assumes "t \<in> set constraintTypes"
  shows "pair_count (constraint_flag t) (constraintsFile d h t)
           (''--sign'' # c # ''--force'' # ''--timestamp'' # ''--options'' # ''runtime'' #
             ''--entitlements'' # entitlementFile d n #
            snd (constraint_steps teamId d h lc constraintTypes) @ [p]) =
         (if present lc t then 1 else 0)"
proof -
  have "distinct (filter (present lc) constraintTypes)"
    by (simp add: constraintTypes_def)
  from pair_count_flags[OF assms _ this, of d h p]
  have "pair_count (constraint_flag t) (constraintsFile d h t)
     (concat (map (\<lambda>t'. [constraint_flag t', constraintsFile d h t'])
        (filter (present lc) constraintTypes)) @ [p]) = (if present lc t then 1 else 0)"
    using assms by simp
  then show ?thesis
    unfolding pair_count_base[OF assms] constraint_steps_eq snd_conv .
qed

text \<open>
  Claim C9. For one yielded path and each of the categories self, parent and
  responsible: when no constraint record lists the path, or its record lacks the
  category, the category is not present; when the record holds an object for it, it is
  present. For a category that is not present no constraint file of that category is
  written and its flag with its file does not occur in the arguments of the signing
  invocation; for a present one the file is written exactly once and the pair of flag
  and file occurs exactly once. There is exactly one signing invocation for the path.
\<close>

theorem launch_constraints_per_category:
  assumes "t \<in> set constraintTypes"
    and "relPath = path_relative appDir filePath"
    and "hash = fileHash (sha256 w) relPath"
    and "lc = launchConstraints (signingConfig w) relPath"
    and "steps = fst (sign_file w appDir plistsDir cert wrote filePath)"
  shows "(lc = None \<or> constraint_of lc t = None \<longrightarrow> \<not> present lc t) \<and>
         (constraint_of lc t = Some (JObject kvs) \<longrightarrow> present lc t) \<and>
         writes_to (constraintsFile plistsDir hash t) (planned steps) =
           (if present lc t then 1 else 0) \<and>
         (\<exists>args. invocations steps = [args] \<and> last args = filePath \<and>
            pair_count (constraint_flag t) (constraintsFile plistsDir hash t) args =
              (if present lc t then 1 else 0))"
proof -
  have p1: "lc = None \<or> constraint_of lc t = None \<longrightarrow> \<not> present lc t"
    by (auto simp: present_def constraint_of_def)
  have p2: "constraint_of lc t = Some (JObject kvs) \<longrightarrow> present lc t"
    by (simp add: present_def)
  have ent: "\<not> is_write_to (constraintsFile plistsDir hash t) (WriteFile (entitlementFile plistsDir n) c)"
    for n c
    using constraintsFile_not_entitlementFile[OF assms(1), of plistsDir hash n] by simp
  have w: "writes_to (constraintsFile plistsDir hash t) (planned steps) =
      (if present lc t then 1 else 0)"
    unfolding assms(5) sign_file_steps
    using constraint_writes[OF assms(1), of plistsDir hash "AC_TEAMID w" lc] ent
    by (simp add: assms(2,3,4)[symmetric])
  have "invocations steps =
      [''--sign'' # cert # ''--force'' # ''--timestamp'' # ''--options'' # ''runtime'' #
        ''--entitlements'' #
        entitlementFile plistsDir (entitlementName (signingConfig w) relPath hash) #
       snd (constraint_steps (AC_TEAMID w) plistsDir hash lc constraintTypes) @ [filePath]]"
    unfolding assms(5) sign_file_steps
    by (simp add: assms(2,3,4)[symmetric])
  with constraint_pairs[OF assms(1), of plistsDir hash cert
      "entitlementName (signingConfig w) relPath hash" "AC_TEAMID w" lc filePath]
  have "\<exists>args. invocations steps = [args] \<and> last args = filePath \<and>
      pair_count (constraint_flag t) (constraintsFile plistsDir hash t) args =
        (if present lc t then 1 else 0)"
    by simp
  with p1 p2 w show ?thesis by blast
qed

theorem launch_constraints_per_category_witness:
  "''self'' \<in> set constraintTypes \<and>
   present (launchConstraints (signingConfig demo_world) ''Contents/MacOS/helper'') ''self'' \<and>
   writes_to
     (constraintsFile ''/w/plists'' (fileHash (sha256 demo_world) ''Contents/MacOS/helper'') ''self'')
     (planned (fst (sign_file demo_world ''/w/app'' ''/w/plists'' ''ABCDEF'' False
        ''/w/app/Contents/MacOS/helper''))) = 1"
proof -
  have t: "''self'' \<in> set constraintTypes"
    by (simp add: constraintTypes_def)
  have rel: "''Contents/MacOS/helper'' = path_relative ''/w/app'' ''/w/app/Contents/MacOS/helper''"
    by (simp add: path_relative_def)
  have pres: "present (launchConstraints (signingConfig demo_world) ''Contents/MacOS/helper'') ''self''"
    by (simp add: present_def launchConstraints_def constraint_of_def demo_world_def
        demo_config_def)
  from launch_constraints_per_category[OF t rel refl refl refl,
      of demo_world "[]" "''/w/plists''" "''ABCDEF''" False] pres
  have "writes_to
     (constraintsFile ''/w/plists'' (fileHash (sha256 demo_world) ''Contents/MacOS/helper'') ''self'')
     (planned (fst (sign_file demo_world ''/w/app'' ''/w/plists'' ''ABCDEF'' False
        ''/w/app/Contents/MacOS/helper''))) = 1"
    by simp
  with t pres show ?thesis by simp
qed

section \<open>Properties of the file identities\<close>

















section \<open>The presence check and the signing loop\<close>

lemma invocations_sign_file:
  "map last (invocations (fst (sign_file w a d c wrote p))) = [p]"
  by (simp add: sign_file_steps)

lemma invocations_sign_files:
  "map last (invocations (sign_files w a d c wrote ys)) = ys"
proof (induction ys arbitrary: wrote)
  case Nil
  then show ?case by simp
next
  case (Cons y ys)
  obtain steps wrote' where sf: "sign_file w a d c wrote y = (steps, wrote')"
    by (cases "sign_file w a d c wrote y")
  with invocations_sign_file[of w a d c wrote y]
  have "map last (invocations steps) = [y]" by simp
  with sf Cons.IH[of wrote'] show ?case by simp
qed

text \<open>
  Claim C7. The presence check only filters the walk: the walker yields exactly the
  candidates (what it yields when no check succeeds) whose check fails, in the same
  order, and how the walk ends does not depend on the check, so a failing check is never
  an error. A path whose check succeeds is never yielded, and the paths the signing loop
  invokes \<^verbatim>\<open>codesign\<close> on are exactly the yielded ones.
\<close>

theorem presence_check_skips_signed:
  "findFilesToSign isSigned dir listing =
     (filter (\<lambda>p. \<not> isSigned p) (fst (findFilesToSign (\<lambda>_. False) dir listing)),
      snd (findFilesToSign (\<lambda>_. False) dir listing)) \<and>
   (\<forall>p. isSigned p \<longrightarrow> p \<notin> set (fst (findFilesToSign isSigned dir listing))) \<and>
   map last (invocations (sign_files w appDir plistsDir cert wrote
       (fst (findFilesToSign isSigned dir listing)))) =
     filter (\<lambda>p. \<not> isSigned p) (fst (findFilesToSign (\<lambda>_. False) dir listing))"
proof -
  have eq: "findFilesToSign isSigned dir listing =
     (filter (\<lambda>p. \<not> isSigned p) (fst (findFilesToSign (\<lambda>_. False) dir listing)),
      snd (findFilesToSign (\<lambda>_. False) dir listing))"
    by (rule presence_check_filters(1))
  have "p \<notin> set (fst (findFilesToSign isSigned dir listing))" if "isSigned p" for p
    using that by (subst eq) simp
  moreover have "map last (invocations (sign_files w appDir plistsDir cert wrote
       (fst (findFilesToSign isSigned dir listing)))) =
     filter (\<lambda>p. \<not> isSigned p) (fst (findFilesToSign (\<lambda>_. False) dir listing))"
    unfolding invocations_sign_files by (subst eq) simp
  ultimately show ?thesis using eq by blast
qed

theorem presence_check_skips_signed_witness:
  "findFilesToSign (\<lambda>p. p = ''/w/Demo.app/Contents/MacOS/helper'') ''/w/Demo.app'' (Some demo_bundle) =
     ([''/w/Demo.app/Contents/Frameworks/F.framework/Versions/A/lib.dylib'',
       ''/w/Demo.app/Contents/Frameworks/F.framework'',
       ''/w/Demo.app''], Completed) \<and>
   ''/w/Demo.app/Contents/MacOS/helper'' \<notin>
     set (fst (findFilesToSign (\<lambda>p. p = ''/w/Demo.app/Contents/MacOS/helper'') ''/w/Demo.app''
       (Some demo_bundle)))"
  using presence_check_skips_signed[of "\<lambda>p. p = ''/w/Demo.app/Contents/MacOS/helper''"
      "''/w/Demo.app''" "Some demo_bundle"]
  by (simp del: findFilesToSign.simps add: demo_walk)

end
